theory Spec2Isabelle
  imports Main "HOL-Library.Word" "HOL-Library.Multiset"
begin

unbundle bit_operations_syntax

text \<open>
  The recursive traversal of \<open>dirtree.c\<close>: \<open>dirent_compare\<close>, \<open>processDir\<close> and the part
  of \<open>main\<close> that runs it for each root and adds up the statistics. The parsing of the
  arguments in \<open>main\<close> and the functions \<open>syntax\<close>, \<open>panic\<close> and \<open>getNext\<close> (the last two
  are never called) are left out.
\<close>

section \<open>Data of dirtree.c\<close>

text \<open>
  C strings are modelled by their contents, the bytes in front of the terminating NUL, as
  \<^typ>\<open>string\<close>; \<open>strlen\<close> is \<^const>\<open>length\<close>.

  \<open>struct summary\<close>: five \<open>unsigned int\<close> counters and two \<open>unsigned long long\<close>
  totals. Arithmetic on them wraps around, as C's unsigned arithmetic does. The field
  \<open>size\<close> of the source is \<open>size'\<close> here.
\<close>

record summary =
  dirs :: "32 word"
  files :: "32 word"
  links :: "32 word"
  fifos :: "32 word"
  socks :: "32 word"
  size' :: "64 word"
  blocks :: "64 word"

text \<open>\<open>memset(&stat, 0, sizeof(stat))\<close>.\<close>

definition zero_summary :: summary where
  "zero_summary =
     \<lparr>dirs = 0, files = 0, links = 0, fifos = 0, socks = 0, size' = 0, blocks = 0\<rparr>"

text \<open>
  \<open>struct dirent\<close>, with the fields the program reads: \<open>d_name\<close>, \<open>d_type\<close>
  (an \<open>unsigned char\<close>) and \<open>d_reclen\<close> (an \<open>unsigned short\<close>, the length of the
  directory record). The \<open>DT_*\<close> values are those of \<open>dirent.h\<close>.
\<close>

record dirent =
  d_name :: string
  d_type :: "8 word"
  d_reclen :: "16 word"

abbreviation (input) DT_UNKNOWN :: "8 word" where "DT_UNKNOWN \<equiv> 0"
abbreviation (input) DT_FIFO :: "8 word" where "DT_FIFO \<equiv> 1"
abbreviation (input) DT_CHR :: "8 word" where "DT_CHR \<equiv> 2"
abbreviation (input) DT_DIR :: "8 word" where "DT_DIR \<equiv> 4"
abbreviation (input) DT_BLK :: "8 word" where "DT_BLK \<equiv> 6"
abbreviation (input) DT_REG :: "8 word" where "DT_REG \<equiv> 8"
abbreviation (input) DT_LNK :: "8 word" where "DT_LNK \<equiv> 10"
abbreviation (input) DT_SOCK :: "8 word" where "DT_SOCK \<equiv> 12"

abbreviation (input) F_TREE :: "32 word" where "F_TREE \<equiv> 1"
abbreviation (input) F_SUMMARY :: "32 word" where "F_SUMMARY \<equiv> 2"
abbreviation (input) F_VERBOSE :: "32 word" where "F_VERBOSE \<equiv> 4"

section \<open>The file system and the state of a run\<close>

text \<open>
  The file system is the environment of the program, fixed during a run. \<open>opendir fs p\<close>
  is \<open>None\<close> when \<open>opendir(p)\<close> fails and otherwise the sequence of records that
  \<open>readdir\<close> returns for the stream until it returns \<open>NULL\<close>, the entries \<open>.\<close> and
  \<open>..\<close> included. \<open>lstat fs p\<close> is what a status lookup of \<open>p\<close> would return: the file
  type bits, the logical size in bytes and the number of 512-byte blocks. The program
  never makes that call; the field is there to state what the directory records do not
  tell.
\<close>

record stat =
  st_mode :: "32 word"
  st_size :: "64 word"
  st_blocks :: "64 word"

abbreviation (input) S_IFDIR :: "32 word" where "S_IFDIR \<equiv> 0x4000"
abbreviation (input) S_IFREG :: "32 word" where "S_IFREG \<equiv> 0x8000"

record filesystem =
  opendir :: "string \<Rightarrow> dirent list option"
  lstat :: "string \<Rightarrow> stat option"

text \<open>
  The state a call works on: the \<open>struct summary\<close> that \<open>stats\<close> points to, the texts
  written to standard output (one element for each \<open>printf\<close> call), and the log of the
  directory streams opened and closed (\<open>opendir\<close> that succeeded, \<open>closedir\<close>).
\<close>

datatype dir_event = Opendir string | Closedir string

record state =
  stats :: summary
  stdout :: "string list"
  dirlog :: "dir_event list"

text \<open>The streams that a log leaves open, each named by the path it was opened on.\<close>

fun apply_event :: "string list \<Rightarrow> dir_event \<Rightarrow> string list" where
  "apply_event hs (Opendir p) = p # hs"
| "apply_event hs (Closedir p) = remove1 p hs"

definition open_streams :: "dir_event list \<Rightarrow> string list" where
  "open_streams evs = foldl apply_event [] evs"

text \<open>
  A run ends in a state, or in one of two errors: the recursion is deeper than the fuel
  given to the model (\<open>OutOfFuel\<close>: the call has not returned), or \<open>strcpy\<close>/\<open>strcat\<close>
  wrote past the end of the buffer that \<open>malloc\<close> returned (\<open>BufferOverflow\<close>: undefined
  behaviour in C). Allocation itself is taken to succeed, and a directory to have fewer
  than \<open>2 ^ 31\<close> entries (\<open>count\<close> is an \<open>int\<close>).
\<close>

datatype error = OutOfFuel | BufferOverflow

section \<open>Library functions\<close>

text \<open>
  \<open>strcmp\<close>: the bytes are compared as \<open>unsigned char\<close>; the C standard fixes the sign of
  the result only, which is what the model returns.
\<close>

definition byte :: "char \<Rightarrow> nat" where
  "byte c = of_char c"

fun strcmp :: "string \<Rightarrow> string \<Rightarrow> int" where
  "strcmp [] [] = 0"
| "strcmp [] (y # ys) = - 1"
| "strcmp (x # xs) [] = 1"
| "strcmp (x # xs) (y # ys) =
     (if x = y then strcmp xs ys else if byte x < byte y then - 1 else 1)"

text \<open>
  \<open>qsort\<close>: the C library sorts the array in ascending order of the comparison function
  and leaves the order of elements that compare equal open. The model is an insertion
  sort driven by the comparison function.
\<close>

fun qsort_insert :: "('a \<Rightarrow> 'a \<Rightarrow> int) \<Rightarrow> 'a \<Rightarrow> 'a list \<Rightarrow> 'a list" where
  "qsort_insert cmp x [] = [x]"
| "qsort_insert cmp x (y # ys) =
     (if cmp x y \<le> 0 then x # y # ys else y # qsort_insert cmp x ys)"

fun qsort :: "('a \<Rightarrow> 'a \<Rightarrow> int) \<Rightarrow> 'a list \<Rightarrow> 'a list" where
  "qsort cmp [] = []"
| "qsort cmp (x # xs) = qsort_insert cmp x (qsort cmp xs)"

text \<open>\<open>printf\<close> conversions: \<open>%llu\<close>, \<open>%d\<close> (of an \<open>unsigned int\<close>: read as signed), \<open>%16d\<close>.\<close>

fun show_nat :: "nat \<Rightarrow> string" where
  "show_nat n =
     (if n < 10 then [char_of (48 + n)] else show_nat (n div 10) @ [char_of (48 + n mod 10)])"

definition show_int :: "int \<Rightarrow> string" where
  "show_int i = (if i < 0 then CHR ''-'' # show_nat (nat (- i)) else show_nat (nat i))"

definition fmt_d :: "32 word \<Rightarrow> string" where
  "fmt_d w = show_int (sint w)"

definition fmt_llu :: "64 word \<Rightarrow> string" where
  "fmt_llu w = show_nat (unat w)"

definition pad16 :: "string \<Rightarrow> string" where
  "pad16 t = replicate (16 - length t) CHR '' '' @ t"

abbreviation nl :: string where "nl \<equiv> [CHR 0x0A]"

section \<open>dirent_compare\<close>

definition dirent_compare :: "dirent \<Rightarrow> dirent \<Rightarrow> int" where
  "dirent_compare e1 e2 =
     (if d_type e1 = DT_DIR \<and> d_type e2 \<noteq> DT_DIR then - 1
      else if d_type e1 \<noteq> DT_DIR \<and> d_type e2 = DT_DIR then 1
      else strcmp (d_name e1) (d_name e2))"

section \<open>processDir\<close>

text \<open>
  The path of the directory, lines 122 to 133. Both lengths are stored in
  \<open>unsigned short\<close> variables, so they are taken modulo \<open>2 ^ 16\<close>; the buffer has
  \<open>oldPathLength + newDirNameLength + 2\<close> bytes (computed in \<open>int\<close>), and the separator is
  added when \<open>oldPathLength > 0\<close> and the byte at \<open>oldPathLength - 1\<close> is not a slash. The
  copies write \<open>pstr\<close>, the separator, \<open>dn\<close> and a NUL; when that is more than the buffer
  holds the result is \<open>BufferOverflow\<close>.
\<close>

definition compose_path :: "string \<Rightarrow> string \<Rightarrow> error + string" where
  "compose_path pstr dn =
     (let oldPathLength = (of_nat (length pstr) :: 16 word);
          newDirNameLength = (of_nat (length dn) :: 16 word);
          capacity = unat oldPathLength + unat newDirNameLength + 2;
          newPath =
            pstr @
            (if oldPathLength > 0 \<and> pstr ! (unat oldPathLength - 1) \<noteq> CHR ''/''
             then ''/'' else []) @
            dn
      in if capacity < length newPath + 1 then Inl BufferOverflow else Inr newPath)"

text \<open>The \<open>while\<close> loop over \<open>readdir\<close>, lines 147 to 157: \<open>.\<close> and \<open>..\<close> are skipped.\<close>

fun read_entries :: "dirent list \<Rightarrow> dirent list" where
  "read_entries [] = []"
| "read_entries (dp # rest) =
     (if strcmp (d_name dp) ''.'' = 0 \<or> strcmp (d_name dp) ''..'' = 0
      then read_entries rest
      else dp # read_entries rest)"

text \<open>The \<open>switch\<close> on \<open>d_type\<close>, lines 180 to 198. It has no \<open>default\<close> branch.\<close>

definition update_stats :: "dirent \<Rightarrow> summary \<Rightarrow> summary" where
  "update_stats dp st =
     (if d_type dp = DT_REG
        then st\<lparr>files := files st + 1, size' := size' st + ucast (d_reclen dp)\<rparr>
      else if d_type dp = DT_DIR then st\<lparr>dirs := dirs st + 1\<rparr>
      else if d_type dp = DT_LNK then st\<lparr>links := links st + 1\<rparr>
      else if d_type dp = DT_FIFO then st\<lparr>fifos := fifos st + 1\<rparr>
      else if d_type dp = DT_SOCK then st\<lparr>socks := socks st + 1\<rparr>
      else st)"

text \<open>
  The \<open>for\<close> loop over the sorted entries, lines 174 to 204. \<open>recurse name\<close> stands for the
  call \<open>processDir(name, newPath, stats, flags)\<close> of line 202.
\<close>

fun for_entries ::
  "(string \<Rightarrow> state \<Rightarrow> error + state) \<Rightarrow> dirent list \<Rightarrow> state \<Rightarrow> error + state" where
  "for_entries recurse [] s = Inr s"
| "for_entries recurse (dp # rest) s =
     (let s1 = s\<lparr>stdout := stdout s @ [d_name dp @ nl]\<rparr>;
          s2 = s1\<lparr>stats := update_stats dp (stats s1)\<rparr>
      in if d_type dp = DT_DIR \<and> strcmp (d_name dp) ''..'' \<noteq> 0 \<and> strcmp (d_name dp) ''.'' \<noteq> 0
         then (case recurse (d_name dp) s2 of
                 Inl e \<Rightarrow> Inl e
               | Inr s3 \<Rightarrow> for_entries recurse rest s3)
         else for_entries recurse rest s2)"

text \<open>
  \<open>processDir(dn, pstr, stats, flags)\<close>. The first argument of the model is the fuel: the
  number of nested calls allowed.
\<close>

fun processDir ::
  "nat \<Rightarrow> filesystem \<Rightarrow> string \<Rightarrow> string \<Rightarrow> state \<Rightarrow> 32 word \<Rightarrow> error + state" where
  "processDir 0 fs dn pstr s flags = Inl OutOfFuel"
| "processDir (Suc fuel) fs dn pstr s flags =
     (case compose_path pstr dn of
        Inl e \<Rightarrow> Inl e
      | Inr newPath \<Rightarrow>
          (case opendir fs newPath of
             None \<Rightarrow> Inr s
           | Some stream \<Rightarrow>
               (let s1 = s\<lparr>dirlog := dirlog s @ [Opendir newPath]\<rparr>;
                    files = read_entries stream
                in if length files = 0
                   then Inr (s1\<lparr>dirlog := dirlog s1 @ [Closedir newPath]\<rparr>)
                   else (case for_entries (\<lambda>name s'. processDir fuel fs name newPath s' flags)
                                 (qsort dirent_compare (qsort dirent_compare files)) s1 of
                           Inl e \<Rightarrow> Inl e
                         | Inr s2 \<Rightarrow> Inr (s2\<lparr>dirlog := dirlog s2 @ [Closedir newPath]\<rparr>)))))"

section \<open>main, from the reset of the statistics on\<close>

text \<open>Lines 332 to 338: every field of \<open>dstat\<close> is added to \<open>tstat\<close>.\<close>

definition add_summary :: "summary \<Rightarrow> summary \<Rightarrow> summary" where
  "add_summary tstat dstat =
     \<lparr>dirs = dirs tstat + dirs dstat,
      files = files tstat + files dstat,
      links = links tstat + links dstat,
      fifos = fifos tstat + fifos dstat,
      socks = socks tstat + socks dstat,
      size' = size' tstat + size' dstat,
      blocks = blocks tstat + blocks dstat\<rparr>"

text \<open>Lines 343 to 349: the seven \<open>printf\<close> calls of a directory's summary.\<close>

definition summary_lines :: "summary \<Rightarrow> string list" where
  "summary_lines dstat =
     [''  # of files:        '' @ fmt_d (files dstat) @ nl,
      ''  # of directories:  '' @ fmt_d (dirs dstat) @ nl,
      ''  # of links:        '' @ fmt_d (links dstat) @ nl,
      ''  # of pipes:        '' @ fmt_d (fifos dstat) @ nl,
      ''  # of sockets:      '' @ fmt_d (socks dstat) @ nl,
      ''  total file size:   '' @ fmt_llu (size' dstat) @ '' bytes'' @ nl,
      ''  total blocks:      '' @ fmt_llu (blocks dstat) @ nl]"

text \<open>Lines 356 to 369: the grand total, and its two more lines in verbose mode.\<close>

definition total_lines :: "32 word \<Rightarrow> nat \<Rightarrow> summary \<Rightarrow> string list" where
  "total_lines flags ndir tstat =
     [''Analyzed '' @ show_nat ndir @ '' directories:'' @ nl @
      ''  total # of files:        '' @ pad16 (fmt_d (files tstat)) @ nl @
      ''  total # of directories:  '' @ pad16 (fmt_d (dirs tstat)) @ nl @
      ''  total # of links:        '' @ pad16 (fmt_d (links tstat)) @ nl @
      ''  total # of pipes:        '' @ pad16 (fmt_d (fifos tstat)) @ nl @
      ''  total # of sockets:      '' @ pad16 (fmt_d (socks tstat)) @ nl] @
     (if flags AND F_VERBOSE \<noteq> 0
      then [''  total file size:         '' @ pad16 (fmt_llu (size' tstat)) @ nl @
            ''  total # of blocks:       '' @ pad16 (fmt_llu (blocks tstat)) @ nl]
      else [])"

text \<open>
  The loop over \<open>directories\<close>, lines 310 to 351. \<open>basename\<close> and \<open>dirname\<close> are
  functions of the C library that may write into the copy of the path they are given; the
  model takes their combined effect as the parameter \<open>split\<close>: for a root path, the value
  of \<open>dirname\<close> (\<open>None\<close> for \<open>NULL\<close>) and the string \<open>lastComponent\<close> points to when
  \<open>processDir\<close> is called. The second component of the loop state records the value of
  \<open>dstat\<close> at the end of each iteration, in order; the \<open>stats\<close> of the state is \<open>dstat\<close>.
\<close>

fun main_loop ::
  "nat \<Rightarrow> filesystem \<Rightarrow> (string \<Rightarrow> string option \<times> string) \<Rightarrow> 32 word \<Rightarrow> string list \<Rightarrow>
   summary \<times> summary list \<times> state \<Rightarrow> error + summary \<times> summary list \<times> state" where
  "main_loop fuel fs split flags [] acc = Inr acc"
| "main_loop fuel fs split flags (d # ds) (tstat, dstats, s) =
     (let s0 = s\<lparr>stats := zero_summary\<rparr>;
          s1 = (if flags AND F_SUMMARY \<noteq> 0
                then s0\<lparr>stdout := stdout s0 @ [nl @ ''Directory: '' @ d @ nl]\<rparr> else s0);
          lastComponent = snd (split d);
          parentPath = (case fst (split d) of None \<Rightarrow> ''./'' | Some p \<Rightarrow> p)
      in case processDir fuel fs lastComponent parentPath s1 flags of
           Inl e \<Rightarrow> Inl e
         | Inr s2 \<Rightarrow>
             (let dstat = stats s2;
                  s3 = (if flags AND F_SUMMARY \<noteq> 0
                        then s2\<lparr>stdout := stdout s2 @ summary_lines dstat\<rparr> else s2)
              in main_loop fuel fs split flags ds
                   (add_summary tstat dstat, dstats @ [dstat], s3)))"

text \<open>
  \<open>main\<close> after the arguments are parsed: \<open>flags\<close> and \<open>directories\<close> are what the
  parsing loop leaves (between 1 and \<open>MAX_DIR\<close> paths).
\<close>

definition main_body ::
  "nat \<Rightarrow> filesystem \<Rightarrow> (string \<Rightarrow> string option \<times> string) \<Rightarrow> 32 word \<Rightarrow> string list \<Rightarrow>
   state \<Rightarrow> error + summary \<times> summary list \<times> state" where
  "main_body fuel fs split flags directories s =
     (case main_loop fuel fs split flags directories (zero_summary, [], s) of
        Inl e \<Rightarrow> Inl e
      | Inr (tstat, dstats, s') \<Rightarrow>
          Inr (tstat, dstats,
               if flags AND F_SUMMARY \<noteq> 0 \<and> 1 < length directories
               then s'\<lparr>stdout := stdout s' @ total_lines flags (length directories) tstat\<rparr>
               else s'))"

section \<open>The C library's basename and dirname\<close>

text \<open>
  \<open>main\<close> calls \<open>basename\<close> and then \<open>dirname\<close> on the same copy of the root path
  (lines 321 to 326), and passes the two results to \<open>processDir\<close>. The program includes
  \<open>libgen.h\<close>, so these are the GNU C library's \<open>__xpg_basename\<close> and \<open>dirname\<close>; both
  may write a NUL into the buffer they are given and return a pointer into it, or a
  pointer to a static string. The model follows the two functions as the library
  implements them: the buffer is a list of bytes with its terminating NUL, a pointer is an
  offset into the buffer or a static string, and a string is read through a pointer when
  it is used, after both calls.
\<close>

datatype cptr = Static string | Into nat

definition cstr :: "string \<Rightarrow> string" where
  "cstr buf = takeWhile (\<lambda>c. c \<noteq> CHR 0x00) buf"

fun deref :: "string \<Rightarrow> cptr \<Rightarrow> string" where
  "deref buf (Static t) = t"
| "deref buf (Into k) = cstr (drop k buf)"

fun last_slash_from :: "nat \<Rightarrow> string \<Rightarrow> nat option" where
  "last_slash_from i [] = None"
| "last_slash_from i (c # cs) =
     (case last_slash_from (Suc i) cs of
        Some j \<Rightarrow> Some j
      | None \<Rightarrow> if c = CHR ''/'' then Some i else None)"

fun back_slashes :: "string \<Rightarrow> nat \<Rightarrow> nat" where
  "back_slashes s 0 = 0"
| "back_slashes s (Suc k) = (if s ! k \<noteq> CHR ''/'' then Suc k else back_slashes s k)"

fun back_name :: "string \<Rightarrow> nat \<Rightarrow> nat" where
  "back_name s 0 = 0"
| "back_name s (Suc k) = (if s ! k = CHR ''/'' then Suc k else back_name s k)"

text \<open>
  \<open>__xpg_basename\<close>: \<open>.\<close> for the empty string; the whole string when it has no slash;
  what follows the last slash when something does; otherwise the trailing slashes are cut
  off by a NUL and the last component in front of them is returned, or the last slash of
  a string of slashes.
\<close>

definition glibc_basename :: "string \<Rightarrow> cptr \<times> string" where
  "glibc_basename buf =
     (let s = cstr buf in
      if s = [] then (Static ''.'', buf)
      else case last_slash_from 0 s of
             None \<Rightarrow> (Into 0, buf)
           | Some p \<Rightarrow>
               if Suc p = length s
               then (let q = back_slashes s p in
                     if 0 < q then (Into (back_name s (q - 1)), buf[q := CHR 0x00])
                     else (Into (length s - 1), buf))
               else (Into (Suc p), buf))"

text \<open>
  \<open>dirname\<close>: \<open>.\<close> when there is no slash; otherwise a NUL is written where the
  directory part ends (after the first slash when the directory is the root, after the
  second for a path that begins with exactly two), and the buffer is returned.
\<close>

definition glibc_dirname :: "string \<Rightarrow> cptr \<times> string" where
  "glibc_dirname buf =
     (let s = cstr buf;
          found = last_slash_from 0 s;
          last_slash =
            (case found of
               None \<Rightarrow> None
             | Some l \<Rightarrow>
                 if l \<noteq> 0 \<and> Suc l = length s
                 then (let runp = back_slashes s l in
                       if runp \<noteq> 0 then last_slash_from 0 (take runp s) else found)
                 else found)
      in case last_slash of
           None \<Rightarrow> (Static ''.'', buf)
         | Some l \<Rightarrow>
             (let runp = back_slashes s l;
                  k = (if runp = 0 then (if l = 1 then 2 else 1) else runp)
              in (Into 0, buf[k := CHR 0x00])))"

text \<open>
  Lines 321 to 326 with these two functions: the parent path and the last component as
  \<open>processDir\<close> receives them. \<open>dirname\<close> never returns \<open>NULL\<close>.
\<close>

definition glibc_split :: "string \<Rightarrow> string option \<times> string" where
  "glibc_split d =
     (let buf0 = d @ [CHR 0x00];
          (lastComponent, buf1) = glibc_basename buf0;
          (parentPath, buf2) = glibc_dirname buf1
      in (Some (deref buf2 parentPath), deref buf2 lastComponent))"

section \<open>Notions of the statements\<close>

text \<open>
  A path composed of a parent and a child, as the specification words it: the two joined
  with exactly one separator, whether or not the parent already ends in a separator, and
  never a doubled or a missing one. The separators at the end of the parent and at the
  beginning of the child are not part of either.
\<close>

definition strip_trailing_separators :: "string \<Rightarrow> string" where
  "strip_trailing_separators p = rev (dropWhile (\<lambda>c. c = CHR ''/'') (rev p))"

definition strip_leading_separators :: "string \<Rightarrow> string" where
  "strip_leading_separators child = dropWhile (\<lambda>c. c = CHR ''/'') child"

definition spec_join :: "string \<Rightarrow> string \<Rightarrow> string" where
  "spec_join parent child =
     strip_trailing_separators parent @ ''/'' @ strip_leading_separators child"

text \<open>
  What the body of the loop does to the state for the entry \<open>dp\<close> before it recurses: the
  \<open>printf\<close> of line 177 and the \<open>switch\<close>.
\<close>

definition visit :: "dirent \<Rightarrow> state \<Rightarrow> state" where
  "visit dp s = s\<lparr>stdout := stdout s @ [d_name dp @ nl], stats := update_stats dp (stats s)\<rparr>"

text \<open>
  The order of siblings, as the specification words it: directories sort before
  non-directories, and within the same category the names are compared byte-wise and
  lexicographically. A directory is an entry whose \<open>d_type\<close> is \<open>DT_DIR\<close>.
\<close>

definition is_directory :: "dirent \<Rightarrow> bool" where
  "is_directory dp \<longleftrightarrow> d_type dp = DT_DIR"

definition entry_le :: "dirent \<Rightarrow> dirent \<Rightarrow> bool" where
  "entry_le a b \<longleftrightarrow>
     (is_directory a \<and> \<not> is_directory b) \<or>
     (is_directory a = is_directory b \<and> lexordp_eq (map byte (d_name a)) (map byte (d_name b)))"

text \<open>
  \<open>entered_as_directory fs evs q\<close>: the path \<open>q\<close> is that of an entry of type \<open>DT_DIR\<close>,
  other than \<open>.\<close> and \<open>..\<close>, of a directory opened in the log \<open>evs\<close>.
\<close>

definition entered_as_directory :: "filesystem \<Rightarrow> dir_event list \<Rightarrow> string \<Rightarrow> bool" where
  "entered_as_directory fs evs q \<longleftrightarrow>
     (\<exists>p stream dp. Opendir p \<in> set evs \<and> opendir fs p = Some stream \<and>
        dp \<in> set (read_entries stream) \<and> d_type dp = DT_DIR \<and>
        compose_path p (d_name dp) = Inr q)"

definition opens_directories_only :: "filesystem \<Rightarrow> state \<Rightarrow> state \<Rightarrow> bool" where
  "opens_directories_only fs t t' \<longleftrightarrow>
     set (dirlog t) \<subseteq> set (dirlog t') \<and>
     (\<forall>q. Opendir q \<in> set (dirlog t') \<longrightarrow>
        Opendir q \<in> set (dirlog t) \<or> entered_as_directory fs (dirlog t') q)"

text \<open>
  The entries that the \<open>switch\<close> counts, the five counters of a summary in the order
  files, directories, links, pipes, sockets, and their sum.
\<close>

definition counted :: "dirent \<Rightarrow> bool" where
  "counted dp \<longleftrightarrow> d_type dp \<in> {DT_REG, DT_DIR, DT_LNK, DT_FIFO, DT_SOCK}"





section \<open>Example data\<close>

definition mk_dirent :: "string \<Rightarrow> 8 word \<Rightarrow> 16 word \<Rightarrow> dirent" where
  "mk_dirent n t r = \<lparr>d_name = n, d_type = t, d_reclen = r\<rparr>"

definition init_state :: state where
  "init_state = \<lparr>stats = zero_summary, stdout = [], dirlog = []\<rparr>"

text \<open>
  The tree \<open>A/{b.txt, C/{d.txt}}\<close> of the specification's scenario, with a symbolic link
  \<open>A/l\<close> that points back to \<open>A\<close>: opening \<open>./A/l\<close> gives the stream of \<open>./A\<close> again.
  \<open>b.txt\<close> has 1000 bytes in 8 blocks, \<open>d.txt\<close> 5 bytes in 8 blocks; their directory
  records are 32 bytes long.
\<close>

definition stream_A :: "dirent list" where
  "stream_A =
     [mk_dirent ''.'' DT_DIR 24, mk_dirent ''b.txt'' DT_REG 32, mk_dirent ''..'' DT_DIR 24,
      mk_dirent ''l'' DT_LNK 24, mk_dirent ''C'' DT_DIR 24]"

definition stream_C :: "dirent list" where
  "stream_C =
     [mk_dirent ''.'' DT_DIR 24, mk_dirent ''..'' DT_DIR 24, mk_dirent ''d.txt'' DT_REG 32]"

definition tree_A :: filesystem where
  "tree_A =
     \<lparr>opendir = (\<lambda>p. if p = ''./A'' \<or> p = ''./A/l'' then Some stream_A
                      else if p = ''./A/C'' \<or> p = ''./A/l/C'' then Some stream_C
                      else None),
      lstat = (\<lambda>p. if p = ''./A/b.txt'' then Some \<lparr>st_mode = S_IFREG, st_size = 1000, st_blocks = 8\<rparr>
                    else if p = ''./A/C/d.txt'' then Some \<lparr>st_mode = S_IFREG, st_size = 5, st_blocks = 8\<rparr>
                    else None)\<rparr>"

text \<open>What the call for \<open>A\<close> in \<open>.\<close> leaves of a zeroed state.\<close>

definition stats_A :: summary where
  "stats_A =
     \<lparr>dirs = 1, files = 2, links = 1, fifos = 0, socks = 0, size' = 64, blocks = 0\<rparr>"

definition result_A :: state where
  "result_A =
     \<lparr>stats = stats_A,
      stdout = [''C'' @ nl, ''d.txt'' @ nl, ''b.txt'' @ nl, ''l'' @ nl],
      dirlog = [Opendir ''./A'', Opendir ''./A/C'', Closedir ''./A/C'', Closedir ''./A'']\<rparr>"

text \<open>The depth of directories below the two paths of \<open>tree_A\<close> that have one.\<close>

definition rank_A :: "string \<Rightarrow> nat" where
  "rank_A p = (if p = ''./A'' \<or> p = ''./A/l'' then 1 else 0)"

text \<open>
  A directory \<open>dev\<close> with a character device \<open>tty\<close> and an entry \<open>sub\<close> whose record has
  no type (\<open>DT_UNKNOWN\<close>, as on a file system that does not fill \<open>d_type\<close> in); a status
  lookup of \<open>sub\<close> would say it is a directory, and it can be opened as one.
\<close>

definition tree_dev :: filesystem where
  "tree_dev =
     \<lparr>opendir = (\<lambda>p. if p = ''./dev'' then
                        Some [mk_dirent ''.'' DT_DIR 24, mk_dirent ''..'' DT_DIR 24,
                              mk_dirent ''tty'' DT_CHR 24, mk_dirent ''sub'' DT_UNKNOWN 24]
                      else if p = ''./dev/sub'' then Some [mk_dirent ''x'' DT_REG 24]
                      else None),
      lstat = (\<lambda>p. if p = ''./dev/sub'' then Some \<lparr>st_mode = S_IFDIR, st_size = 4096, st_blocks = 8\<rparr>
                    else None)\<rparr>"

text \<open>What the call for \<open>dev\<close> in \<open>.\<close> leaves of a zeroed state.\<close>

definition result_dev :: state where
  "result_dev =
     \<lparr>stats = zero_summary,
      stdout = [''sub'' @ nl, ''tty'' @ nl],
      dirlog = [Opendir ''./dev'', Closedir ''./dev'']\<rparr>"


text \<open>
  A root directory with one regular file \<open>f\<close>; \<open>//\<close> names the root directory too.
  No other path exists. \<open>stats_root\<close> is what a traversal of it counts.
\<close>

definition tree_root :: filesystem where
  "tree_root =
     \<lparr>opendir = (\<lambda>p. if p = ''/'' \<or> p = ''//'' then
                        Some [mk_dirent ''.'' DT_DIR 24, mk_dirent ''..'' DT_DIR 24,
                              mk_dirent ''f'' DT_REG 24]
                      else None),
      lstat = (\<lambda>p. None)\<rparr>"

definition stats_root :: summary where
  "stats_root =
     \<lparr>dirs = 0, files = 1, links = 0, fifos = 0, socks = 0, size' = 24, blocks = 0\<rparr>"

text \<open>A split of root paths with no slash in them: the parent is \<open>.\<close>.\<close>

definition split_dot :: "string \<Rightarrow> string option \<times> string" where
  "split_dot d = (Some ''.'', d)"

section \<open>Lemmas on the loop and the traversal\<close>

lemma for_entries_cong:
  "(\<And>name s'. r1 name s' = r2 name s') \<Longrightarrow> for_entries r1 es s = for_entries r2 es s"
  by (induction es arbitrary: s) (simp_all add: Let_def split: sum.split)

lemma processDir_unopenable:
  "compose_path pstr dn = Inr p \<Longrightarrow> opendir fs p = None \<Longrightarrow>
   processDir (Suc fuel) fs dn pstr s flags = Inr s"
  by simp

lemma processDir_overflow:
  "compose_path pstr dn = Inl e \<Longrightarrow> processDir (Suc fuel) fs dn pstr s flags = Inl e"
  by simp

lemma processDir_opened:
  "compose_path pstr dn = Inr p \<Longrightarrow> opendir fs p = Some stream \<Longrightarrow>
   processDir (Suc fuel) fs dn pstr s flags =
     (if read_entries stream = [] then Inr (s\<lparr>dirlog := dirlog s @ [Opendir p, Closedir p]\<rparr>)
      else case for_entries (\<lambda>name s'. processDir fuel fs name p s' flags)
                  (qsort dirent_compare (qsort dirent_compare (read_entries stream)))
                  (s\<lparr>dirlog := dirlog s @ [Opendir p]\<rparr>) of
             Inl e \<Rightarrow> Inl e
           | Inr s2 \<Rightarrow> Inr (s2\<lparr>dirlog := dirlog s2 @ [Closedir p]\<rparr>))"
  by (simp add: Let_def)

lemma for_entries_Cons:
  "for_entries recurse (dp # rest) s =
     (if d_type dp = DT_DIR \<and> strcmp (d_name dp) ''..'' \<noteq> 0 \<and> strcmp (d_name dp) ''.'' \<noteq> 0
      then (case recurse (d_name dp) (visit dp s) of
              Inl e \<Rightarrow> Inl e
            | Inr s3 \<Rightarrow> for_entries recurse rest s3)
      else for_entries recurse rest (visit dp s))"
  by (simp add: Let_def visit_def)

lemma mset_qsort_insert: "mset (qsort_insert cmp x ys) = add_mset x (mset ys)"
  by (induction ys) simp_all

lemma mset_qsort: "mset (qsort cmp xs) = mset xs"
  by (induction xs) (simp_all add: mset_qsort_insert)

lemma set_qsort: "set (qsort cmp xs) = set xs"
  using mset_qsort[of cmp xs] by (metis set_mset_mset)

text \<open>The two example runs.\<close>

lemma tree_A_run:
  "processDir (Suc (Suc 0)) tree_A ''A'' ''.'' init_state flags = Inr result_A"
  by (simp add: compose_path_def tree_A_def stream_A_def stream_C_def mk_dirent_def
      init_state_def result_A_def stats_A_def zero_summary_def dirent_compare_def
      update_stats_def byte_def)

lemma tree_dev_run:
  "processDir (Suc (Suc 0)) tree_dev ''dev'' ''.'' init_state flags = Inr result_dev"
  by (simp add: compose_path_def tree_dev_def mk_dirent_def init_state_def result_dev_def
      zero_summary_def dirent_compare_def update_stats_def byte_def)


lemma glibc_split_examples:
  "glibc_split ''/missing'' = (Some ''/'', '''')"
  "glibc_split ''/'' = (Some ''/'', ''/'')"
  "glibc_split '''' = (Some ''.'', ''.'')"
  "glibc_split ''A'' = (Some ''.'', ''A'')"
  "glibc_split ''A/'' = (Some ''.'', ''A'')"
  "glibc_split ''A/b'' = (Some ''A'', ''b'')"
  by (simp_all add: glibc_split_def glibc_basename_def glibc_dirname_def cstr_def Let_def)

text \<open>
  A root path with no slash in it is split into the parent \<open>.\<close> and the path itself.
\<close>

lemma last_slash_from_None:
  "CHR ''/'' \<notin> set cs \<Longrightarrow> last_slash_from i cs = None"
  by (induction cs arbitrary: i) auto

lemma cstr_terminated:
  "CHR 0x00 \<notin> set d \<Longrightarrow> cstr (d @ [CHR 0x00]) = d"
  by (induction d) (auto simp add: cstr_def)

lemma glibc_split_plain:
  assumes "d \<noteq> []" "CHR ''/'' \<notin> set d" "CHR 0x00 \<notin> set d"
  shows "glibc_split d = (Some ''.'', d)"
  using assms
  by (simp add: glibc_split_def glibc_basename_def glibc_dirname_def cstr_terminated
      last_slash_from_None Let_def)

text \<open>
  The path that \<open>processDir\<close> composes when neither string has \<open>2 ^ 16\<close> bytes or more: the
  unsigned short lengths are the lengths.
\<close>

lemma unat_len16: "n < 65536 \<Longrightarrow> unat (of_nat n :: 16 word) = n"
  by (simp add: unat_of_nat)

lemma compose_path_short:
  assumes "length pstr < 65536" "length dn < 65536"
  shows "compose_path pstr dn =
         Inr (pstr @ (if pstr \<noteq> [] \<and> last pstr \<noteq> CHR ''/'' then ''/'' else []) @ dn)"
proof -
  have l: "unat (of_nat (length pstr) :: 16 word) = length pstr"
    using assms(1) by (rule unat_len16)
  have d: "unat (of_nat (length dn) :: 16 word) = length dn"
    using assms(2) by (rule unat_len16)
  have pos: "(0 < (of_nat (length pstr) :: 16 word)) = (pstr \<noteq> [])"
    using l by (simp add: word_less_nat_alt)
  have nth: "pstr \<noteq> [] \<Longrightarrow> pstr ! (length pstr - 1) = last pstr"
    by (simp add: last_conv_nth)
  show ?thesis
    using nth by (auto simp add: compose_path_def Let_def l d pos)
qed

declare for_entries.simps(2) [simp del] processDir.simps(2) [simp del]

text \<open>More fuel does not change the result of a call that returns.\<close>

lemma for_entries_mono:
  "(\<And>name t t'. r1 name t = Inr t' \<Longrightarrow> r2 name t = Inr t') \<Longrightarrow>
   for_entries r1 es s = Inr s' \<Longrightarrow> for_entries r2 es s = Inr s'"
  by (induction es arbitrary: s) (auto simp add: for_entries_Cons split: sum.splits if_splits)

lemma processDir_more_fuel:
  "processDir fuel fs dn pstr s flags = Inr s' \<Longrightarrow>
   processDir (Suc fuel) fs dn pstr s flags = Inr s'"
proof (induction fuel arbitrary: dn pstr s s')
  case 0
  then show ?case by simp
next
  case (Suc fuel)
  from Suc.prems obtain p where p: "compose_path pstr dn = Inr p"
    by (cases "compose_path pstr dn") (auto simp add: processDir_overflow)
  show ?case
  proof (cases "opendir fs p")
    case None
    with p Suc.prems show ?thesis by (simp add: processDir_unopenable)
  next
    case (Some stream)
    have "for_entries (\<lambda>name t. processDir (Suc fuel) fs name p t flags) es t = Inr t'"
      if "for_entries (\<lambda>name t. processDir fuel fs name p t flags) es t = Inr t'" for es t t'
      using _ that by (rule for_entries_mono) (rule Suc.IH)
    with p Some Suc.prems show ?thesis
      by (auto simp add: processDir_opened split: sum.splits if_splits)
  qed
qed

text \<open>An invariant rule for the loop and for the traversal.\<close>

lemma for_entries_rel:
  assumes refl: "\<And>t. R t t"
    and trans: "\<And>a b c. R a b \<Longrightarrow> R b c \<Longrightarrow> R a c"
    and step: "\<And>dp t. dp \<in> set es \<Longrightarrow> R t (visit dp t)"
    and rec: "\<And>dp t t'. dp \<in> set es \<Longrightarrow> d_type dp = DT_DIR \<Longrightarrow>
                 recurse (d_name dp) t = Inr t' \<Longrightarrow> R t t'"
    and run: "for_entries recurse es s = Inr s'"
  shows "R s s'"
proof -
  have "(\<forall>dp\<in>set es. \<forall>t. R t (visit dp t)) \<Longrightarrow>
        (\<forall>dp\<in>set es. d_type dp = DT_DIR \<longrightarrow> (\<forall>t t'. recurse (d_name dp) t = Inr t' \<longrightarrow> R t t')) \<Longrightarrow>
        for_entries recurse es s = Inr s' \<Longrightarrow> R s s'"
  proof (induction es arbitrary: s)
    case Nil
    then show ?case using refl by simp
  next
    case (Cons dp rest)
    have st: "R s (visit dp s)" using Cons.prems(1) by simp
    show ?case
    proof (cases "d_type dp = DT_DIR \<and> strcmp (d_name dp) ''..'' \<noteq> 0 \<and> strcmp (d_name dp) ''.'' \<noteq> 0")
      case True
      with Cons.prems(3) obtain s3 where r: "recurse (d_name dp) (visit dp s) = Inr s3"
        and f: "for_entries recurse rest s3 = Inr s'"
        by (auto simp add: for_entries_Cons split: sum.splits)
      have "R (visit dp s) s3" using Cons.prems(2) True r by simp
      moreover have "R s3 s'"
        using Cons.IH[OF _ _ f] Cons.prems(1,2) by simp
      ultimately show ?thesis using st trans by blast
    next
      case False
      with Cons.prems(3) have f: "for_entries recurse rest (visit dp s) = Inr s'"
        by (auto simp add: for_entries_Cons)
      have "R (visit dp s) s'"
        using Cons.IH[OF _ _ f] Cons.prems(1,2) by simp
      then show ?thesis using st trans by blast
    qed
  qed
  then show ?thesis using step rec run by blast
qed

lemma processDir_rel:
  assumes refl: "\<And>t. R t t"
    and trans: "\<And>a b c. R a b \<Longrightarrow> R b c \<Longrightarrow> R a c"
    and step: "\<And>p stream dp t. opendir fs p = Some stream \<Longrightarrow> dp \<in> set (read_entries stream) \<Longrightarrow>
                 R t (visit dp t)"
    and bracket: "\<And>p t t'. R (t\<lparr>dirlog := dirlog t @ [Opendir p]\<rparr>) t' \<Longrightarrow>
                 R t (t'\<lparr>dirlog := dirlog t' @ [Closedir p]\<rparr>)"
    and run: "processDir fuel fs dn pstr s flags = Inr s'"
  shows "R s s'"
  using run
proof (induction fuel arbitrary: dn pstr s s')
  case 0
  then show ?case by simp
next
  case (Suc fuel)
  from Suc.prems obtain p where p: "compose_path pstr dn = Inr p"
    by (cases "compose_path pstr dn") (auto simp add: processDir_overflow)
  show ?case
  proof (cases "opendir fs p")
    case None
    with p Suc.prems show ?thesis using refl by (simp add: processDir_unopenable)
  next
    case (Some stream)
    let ?s1 = "s\<lparr>dirlog := dirlog s @ [Opendir p]\<rparr>"
    show ?thesis
    proof (cases "read_entries stream = []")
      case True
      with p Some Suc.prems have "s' = ?s1\<lparr>dirlog := dirlog ?s1 @ [Closedir p]\<rparr>"
        by (simp add: processDir_opened)
      then show ?thesis using bracket[OF refl, of s p] by simp
    next
      case False
      with p Some Suc.prems obtain s2 where
        f: "for_entries (\<lambda>name s'. processDir fuel fs name p s' flags)
              (qsort dirent_compare (qsort dirent_compare (read_entries stream))) ?s1 = Inr s2"
        and s': "s' = s2\<lparr>dirlog := dirlog s2 @ [Closedir p]\<rparr>"
        by (auto simp add: processDir_opened split: sum.splits)
      have "R ?s1 s2"
      proof (rule for_entries_rel[where R = R, OF refl trans _ _ f])
        fix dp t
        assume "dp \<in> set (qsort dirent_compare (qsort dirent_compare (read_entries stream)))"
        then have "dp \<in> set (read_entries stream)" by (simp add: set_qsort)
        then show "R t (visit dp t)" using step Some by blast
      next
        fix dp :: dirent and t t'
        assume "processDir fuel fs (d_name dp) p t flags = Inr t'"
        then show "R t t'" by (rule Suc.IH)
      qed
      then show ?thesis unfolding s' by (rule bracket)
    qed
  qed
qed

section \<open>C1: size and blocks\<close>

lemma processDir_blocks_unchanged:
  assumes "processDir fuel fs dn pstr s flags = Inr s'"
  shows "blocks (stats s') = blocks (stats s)"
proof (rule processDir_rel[where R = "\<lambda>t t'. blocks (stats t') = blocks (stats t)", OF _ _ _ _ assms])
  show "blocks (stats (visit dp t)) = blocks (stats t)" for dp t
    by (simp add: visit_def update_stats_def)
qed simp_all

text \<open>
  C1. The regular-file branch adds \<open>d_reclen\<close>, the length of the directory record, to
  \<open>size\<close>, and nothing is ever added to \<open>blocks\<close>. In \<open>tree_A\<close> the two regular files
  have 1000 and 5 bytes in 8 blocks each; the call counts 64 bytes, the length of their
  two records, and no block.
\<close>

theorem size_is_record_length_not_file_size:
  "lstat tree_A ''./A/b.txt'' = Some \<lparr>st_mode = S_IFREG, st_size = 1000, st_blocks = 8\<rparr> \<and>
   lstat tree_A ''./A/C/d.txt'' = Some \<lparr>st_mode = S_IFREG, st_size = 5, st_blocks = 8\<rparr> \<and>
   processDir (Suc (Suc 0)) tree_A ''A'' ''.'' init_state 0 = Inr result_A \<and>
   files (stats result_A) = 2 \<and> size' (stats result_A) = 64 \<and> blocks (stats result_A) = 0"
  using tree_A_run[of 0] by (simp add: tree_A_def result_A_def stats_A_def)

section \<open>C2: the counters\<close>



lemma update_stats_not_counted: "\<not> counted dp \<Longrightarrow> update_stats dp st = st"
  by (simp add: update_stats_def counted_def)








section \<open>C3: the order of the entries\<close>

lemma byte_eq_iff: "byte x = byte y \<longleftrightarrow> x = y"
  by (simp add: byte_def)

lemma byte_less_linear: "x \<noteq> y \<Longrightarrow> \<not> byte x < byte y \<Longrightarrow> byte y < byte x"
  using byte_eq_iff[of x y] by arith

lemma strcmp_le_iff: "strcmp a b \<le> 0 \<longleftrightarrow> lexordp_eq (map byte a) (map byte b)"
  by (induction a b rule: strcmp.induct) (auto dest: byte_less_linear)

lemma dirent_compare_le_iff: "dirent_compare a b \<le> 0 \<longleftrightarrow> entry_le a b"
  by (auto simp add: dirent_compare_def entry_le_def is_directory_def strcmp_le_iff)

lemma entry_le_total: "entry_le a b \<or> entry_le b a"
  using lexordp_eq_linear[of "map byte (d_name a)" "map byte (d_name b)"]
  by (auto simp add: entry_le_def)

lemma entry_le_trans: "entry_le a b \<Longrightarrow> entry_le b c \<Longrightarrow> entry_le a c"
  by (auto simp add: entry_le_def intro: lexordp_eq_trans)

lemma inj_byte: "inj byte"
  by (simp add: inj_on_def byte_eq_iff)

lemma entry_le_antisym:
  assumes "entry_le a b" "entry_le b a"
  shows "is_directory a = is_directory b \<and> d_name a = d_name b"
proof -
  from assms have d: "is_directory a = is_directory b"
    and "lexordp_eq (map byte (d_name a)) (map byte (d_name b))"
    and "lexordp_eq (map byte (d_name b)) (map byte (d_name a))"
    by (auto simp add: entry_le_def)
  then have "map byte (d_name a) = map byte (d_name b)" by (simp add: lexordp_eq_antisym)
  then have "d_name a = d_name b" using inj_byte by (simp add: inj_map_eq_map)
  with d show ?thesis by simp
qed

lemma set_qsort_insert: "set (qsort_insert cmp x ys) = insert x (set ys)"
  using mset_qsort_insert[of cmp x ys] by (metis set_mset_mset set_mset_add_mset_insert)

lemma sorted_qsort_insert:
  "sorted_wrt entry_le ys \<Longrightarrow> sorted_wrt entry_le (qsort_insert dirent_compare x ys)"
proof (induction ys)
  case Nil
  then show ?case by simp
next
  case (Cons y ys)
  show ?case
  proof (cases "dirent_compare x y \<le> 0")
    case True
    then have "entry_le x y" by (simp add: dirent_compare_le_iff)
    then have "\<forall>z\<in>set ys. entry_le x z" using Cons.prems by (auto intro: entry_le_trans)
    with True \<open>entry_le x y\<close> Cons.prems show ?thesis by simp
  next
    case False
    then have "entry_le y x" using entry_le_total[of x y] by (simp add: dirent_compare_le_iff)
    with False Cons show ?thesis by (auto simp add: set_qsort_insert)
  qed
qed

lemma sorted_qsort: "sorted_wrt entry_le (qsort dirent_compare xs)"
  by (induction xs) (simp_all add: sorted_qsort_insert)

text \<open>
  The order leaves no choice among entries with different names: whatever sorting
  algorithm \<open>qsort\<close> is, for the entries of one directory it gives what the model gives.
\<close>

lemma sorted_wrt_unique:
  assumes "sorted_wrt R xs" "sorted_wrt R ys" "mset xs = mset ys"
    and "\<forall>a\<in>set xs. \<forall>b\<in>set xs. R a b \<longrightarrow> R b a \<longrightarrow> a = b"
  shows "xs = ys"
  using assms
proof (induction xs arbitrary: ys)
  case Nil
  then show ?case by simp
next
  case (Cons x xs)
  from Cons.prems(3) obtain y ys' where ys: "ys = y # ys'"
    by (cases ys) auto
  have sets: "set (x # xs) = set (y # ys')"
    using Cons.prems(3) ys by (metis set_mset_mset)
  have "x = y"
  proof (rule ccontr)
    assume ne: "x \<noteq> y"
    with sets have "x \<in> set ys'" and "y \<in> set xs" by auto
    then have "R y x" and "R x y" using Cons.prems(1,2) ys by auto
    moreover have "x \<in> set (x # xs)" "y \<in> set (x # xs)" using \<open>y \<in> set xs\<close> by simp_all
    ultimately show False using Cons.prems(4) ne by blast
  qed
  moreover have "xs = ys'"
  proof (rule Cons.IH)
    show "sorted_wrt R xs" using Cons.prems(1) by simp
    show "sorted_wrt R ys'" using Cons.prems(2) ys by simp
    show "mset xs = mset ys'" using Cons.prems(3) ys \<open>x = y\<close> by simp
    show "\<forall>a\<in>set xs. \<forall>b\<in>set xs. R a b \<longrightarrow> R b a \<longrightarrow> a = b" using Cons.prems(4) by simp
  qed
  ultimately show ?case using ys by simp
qed

lemma sorted_entries_unique:
  assumes names: "distinct (map d_name entries)"
    and perm: "mset ys = mset entries"
    and sorted: "sorted_wrt entry_le ys"
  shows "ys = qsort dirent_compare (qsort dirent_compare entries)"
proof (rule sorted_wrt_unique[where R = entry_le])
  show "sorted_wrt entry_le ys" by (rule sorted)
  show "sorted_wrt entry_le (qsort dirent_compare (qsort dirent_compare entries))"
    by (rule sorted_qsort)
  show "mset ys = mset (qsort dirent_compare (qsort dirent_compare entries))"
    using perm by (simp add: mset_qsort)
  show "\<forall>a\<in>set ys. \<forall>b\<in>set ys. entry_le a b \<longrightarrow> entry_le b a \<longrightarrow> a = b"
  proof (intro ballI impI)
    fix a b
    assume "a \<in> set ys" "b \<in> set ys" "entry_le a b" "entry_le b a"
    then have "d_name a = d_name b" and "a \<in> set entries" and "b \<in> set entries"
      using entry_le_antisym[of a b] perm by (auto dest: mset_eq_setD)
    with names show "a = b" by (meson distinct_map inj_onD)
  qed
qed

text \<open>
  The loop prints the entries of its list in the order of the list, each line followed by
  what the nested call for the entry prints; an entry that is not a directory has nothing
  after its line.
\<close>

lemma processDir_output_grows:
  assumes "processDir fuel fs dn pstr s flags = Inr s'"
  shows "\<exists>out. stdout s' = stdout s @ out"
proof (rule processDir_rel[where R = "\<lambda>t t'. \<exists>out. stdout t' = stdout t @ out", OF _ _ _ _ assms])
  show "\<exists>out. stdout c = stdout a @ out"
    if "\<exists>out. stdout b = stdout a @ out" "\<exists>out. stdout c = stdout b @ out" for a b c :: state
    using that by auto
  show "\<exists>out. stdout (visit dp t) = stdout t @ out" for dp t
    by (simp add: visit_def)
qed simp_all

lemma for_entries_output:
  assumes rec: "\<And>name t t'. recurse name t = Inr t' \<Longrightarrow> \<exists>out. stdout t' = stdout t @ out"
  shows "for_entries recurse es s = Inr s' \<Longrightarrow>
         \<exists>outs. list_all2 (\<lambda>dp out. d_type dp \<noteq> DT_DIR \<longrightarrow> out = []) es outs \<and>
           stdout s' = stdout s @ concat (map (\<lambda>(dp, out). (d_name dp @ nl) # out) (zip es outs))"
proof (induction es arbitrary: s)
  case Nil
  then show ?case by simp
next
  case (Cons dp rest)
  show ?case
  proof (cases "d_type dp = DT_DIR \<and> strcmp (d_name dp) ''..'' \<noteq> 0 \<and> strcmp (d_name dp) ''.'' \<noteq> 0")
    case True
    with Cons.prems obtain s3 where r: "recurse (d_name dp) (visit dp s) = Inr s3"
      and f: "for_entries recurse rest s3 = Inr s'"
      by (auto simp add: for_entries_Cons split: sum.splits)
    from rec[OF r] obtain out where out: "stdout s3 = stdout (visit dp s) @ out" by blast
    from Cons.IH[OF f] obtain outs where
      l: "list_all2 (\<lambda>dp out. d_type dp \<noteq> DT_DIR \<longrightarrow> out = []) rest outs"
      and o: "stdout s' = stdout s3 @ concat (map (\<lambda>(dp, out). (d_name dp @ nl) # out) (zip rest outs))"
      by blast
    have "list_all2 (\<lambda>dp out. d_type dp \<noteq> DT_DIR \<longrightarrow> out = []) (dp # rest) (out # outs)"
      using l True by simp
    moreover have "stdout s' = stdout s @
        concat (map (\<lambda>(dp, out). (d_name dp @ nl) # out) (zip (dp # rest) (out # outs)))"
      using o out by (simp add: visit_def)
    ultimately show ?thesis by blast
  next
    case False
    with Cons.prems have f: "for_entries recurse rest (visit dp s) = Inr s'"
      by (auto simp add: for_entries_Cons)
    from Cons.IH[OF f] obtain outs where
      l: "list_all2 (\<lambda>dp out. d_type dp \<noteq> DT_DIR \<longrightarrow> out = []) rest outs"
      and o: "stdout s' = stdout (visit dp s) @
                concat (map (\<lambda>(dp, out). (d_name dp @ nl) # out) (zip rest outs))"
      by blast
    have "list_all2 (\<lambda>dp out. d_type dp \<noteq> DT_DIR \<longrightarrow> out = []) (dp # rest) ([] # outs)"
      using l by simp
    moreover have "stdout s' = stdout s @
        concat (map (\<lambda>(dp, out). (d_name dp @ nl) # out) (zip (dp # rest) ([] # outs)))"
      using o by (simp add: visit_def)
    ultimately show ?thesis by blast
  qed
qed

lemma processDir_prints_in_order:
  assumes path: "compose_path pstr dn = Inr p"
    and opened: "opendir fs p = Some stream"
    and returns: "processDir fuel fs dn pstr s flags = Inr s'"
  shows "\<exists>outs.
           list_all2 (\<lambda>dp out. d_type dp \<noteq> DT_DIR \<longrightarrow> out = [])
             (qsort dirent_compare (qsort dirent_compare (read_entries stream))) outs \<and>
           stdout s' = stdout s @
             concat (map (\<lambda>(dp, out). (d_name dp @ nl) # out)
               (zip (qsort dirent_compare (qsort dirent_compare (read_entries stream))) outs))"
proof -
  from returns obtain n where fuel: "fuel = Suc n" by (cases fuel) auto
  show ?thesis
  proof (cases "read_entries stream = []")
    case True
    with path opened returns fuel have "stdout s' = stdout s"
      by (auto simp add: processDir_opened)
    with True show ?thesis by simp
  next
    case False
    with path opened returns fuel obtain s2 where
      f: "for_entries (\<lambda>name s'. processDir n fs name p s' flags)
            (qsort dirent_compare (qsort dirent_compare (read_entries stream)))
            (s\<lparr>dirlog := dirlog s @ [Opendir p]\<rparr>) = Inr s2"
      and s': "s' = s2\<lparr>dirlog := dirlog s2 @ [Closedir p]\<rparr>"
      by (auto simp add: processDir_opened split: sum.splits)
    have "\<exists>outs.
           list_all2 (\<lambda>dp out. d_type dp \<noteq> DT_DIR \<longrightarrow> out = [])
             (qsort dirent_compare (qsort dirent_compare (read_entries stream))) outs \<and>
           stdout s2 = stdout (s\<lparr>dirlog := dirlog s @ [Opendir p]\<rparr>) @
             concat (map (\<lambda>(dp, out). (d_name dp @ nl) # out)
               (zip (qsort dirent_compare (qsort dirent_compare (read_entries stream))) outs))"
    proof (rule for_entries_output[where recurse = "\<lambda>name s'. processDir n fs name p s' flags"])
      show "\<exists>out. stdout t' = stdout t @ out"
        if "processDir n fs name p t flags = Inr t'" for name t t'
        using that by (rule processDir_output_grows)
      show "for_entries (\<lambda>name s'. processDir n fs name p s' flags)
            (qsort dirent_compare (qsort dirent_compare (read_entries stream)))
            (s\<lparr>dirlog := dirlog s @ [Opendir p]\<rparr>) = Inr s2" by (rule f)
    qed
    then show ?thesis using s' by simp
  qed
qed

text \<open>
  C3. The list that the loop visits is the entries of the directory, sorted twice with
  \<open>dirent_compare\<close>: the same entries, in the order of the specification, so that every
  entry precedes all later ones in it. That order is total and transitive, it is
  antisymmetric up to the category and the name, and it puts every directory strictly
  before every non-directory. When the names are distinct, as those of siblings are, it is
  the only arrangement of the entries in that order. A call of \<open>processDir\<close> that opens a
  directory and returns has visited the entries of the directory in such an order: what
  the call printed is, for a permutation of the entries sorted in the order of the
  specification, the line of each entry followed by the output of the nested call for it,
  which is empty when the entry is not a directory.
\<close>

theorem sort_is_directories_first_then_names:
  "mset (qsort dirent_compare (qsort dirent_compare entries)) = mset entries \<and>
   sorted_wrt entry_le (qsort dirent_compare (qsort dirent_compare entries)) \<and>
   (entry_le a b \<or> entry_le b a) \<and>
   (entry_le a b \<longrightarrow> entry_le b c \<longrightarrow> entry_le a c) \<and>
   (entry_le a b \<longrightarrow> entry_le b a \<longrightarrow> is_directory a = is_directory b \<and> d_name a = d_name b) \<and>
   (is_directory a \<longrightarrow> \<not> is_directory b \<longrightarrow> entry_le a b \<and> \<not> entry_le b a) \<and>
   (distinct (map d_name entries) \<longrightarrow> mset ys = mset entries \<longrightarrow> sorted_wrt entry_le ys \<longrightarrow>
      ys = qsort dirent_compare (qsort dirent_compare entries)) \<and>
   (compose_path pstr dn = Inr p \<longrightarrow> opendir fs p = Some stream \<longrightarrow>
    processDir fuel fs dn pstr s flags = Inr s' \<longrightarrow>
      (\<exists>order outs.
         mset order = mset (read_entries stream) \<and>
         sorted_wrt entry_le order \<and>
         list_all2 (\<lambda>dp out. d_type dp \<noteq> DT_DIR \<longrightarrow> out = []) order outs \<and>
         stdout s' = stdout s @
           concat (map (\<lambda>(dp, out). (d_name dp @ nl) # out) (zip order outs))))"
proof -
  have dirs: "is_directory a \<Longrightarrow> \<not> is_directory b \<Longrightarrow> entry_le a b \<and> \<not> entry_le b a"
    by (simp add: entry_le_def)
  have visit: "\<exists>order outs.
         mset order = mset (read_entries stream) \<and>
         sorted_wrt entry_le order \<and>
         list_all2 (\<lambda>dp out. d_type dp \<noteq> DT_DIR \<longrightarrow> out = []) order outs \<and>
         stdout s' = stdout s @
           concat (map (\<lambda>(dp, out). (d_name dp @ nl) # out) (zip order outs))"
    if "compose_path pstr dn = Inr p" "opendir fs p = Some stream"
      "processDir fuel fs dn pstr s flags = Inr s'"
  proof -
    from processDir_prints_in_order[OF that] obtain outs where
      "list_all2 (\<lambda>dp out. d_type dp \<noteq> DT_DIR \<longrightarrow> out = [])
         (qsort dirent_compare (qsort dirent_compare (read_entries stream))) outs"
      "stdout s' = stdout s @
         concat (map (\<lambda>(dp, out). (d_name dp @ nl) # out)
           (zip (qsort dirent_compare (qsort dirent_compare (read_entries stream))) outs))"
      by blast
    then show ?thesis
      by (intro exI[of _ "qsort dirent_compare (qsort dirent_compare (read_entries stream))"]
          exI[of _ outs]) (simp add: mset_qsort sorted_qsort)
  qed
  show ?thesis
    using entry_le_total[of a b] entry_le_trans[of a b c] entry_le_antisym[of a b]
      sorted_entries_unique[of entries ys] dirs visit
    by (simp add: mset_qsort sorted_qsort)
qed

theorem sort_is_directories_first_then_names_witness:
  "qsort dirent_compare (qsort dirent_compare (read_entries stream_A)) =
     [mk_dirent ''C'' DT_DIR 24, mk_dirent ''b.txt'' DT_REG 32, mk_dirent ''l'' DT_LNK 24] \<and>
   sorted_wrt entry_le [mk_dirent ''C'' DT_DIR 24, mk_dirent ''b.txt'' DT_REG 32, mk_dirent ''l'' DT_LNK 24] \<and>
   entry_le (mk_dirent ''C'' DT_DIR 24) (mk_dirent ''b.txt'' DT_REG 32) \<and>
   entry_le (mk_dirent ''b.txt'' DT_REG 32) (mk_dirent ''l'' DT_LNK 24) \<and>
   entry_le (mk_dirent ''C'' DT_DIR 24) (mk_dirent ''l'' DT_LNK 24) \<and>
   \<not> entry_le (mk_dirent ''b.txt'' DT_REG 32) (mk_dirent ''C'' DT_DIR 24) \<and>
   distinct (map d_name (read_entries stream_A)) \<and>
   processDir (Suc (Suc 0)) tree_A ''A'' ''.'' init_state 0 = Inr result_A \<and>
   stdout result_A = [''C'' @ nl, ''d.txt'' @ nl, ''b.txt'' @ nl, ''l'' @ nl] \<and>
   (\<exists>order outs.
      mset order = mset (read_entries stream_A) \<and>
      sorted_wrt entry_le order \<and>
      list_all2 (\<lambda>dp out. d_type dp \<noteq> DT_DIR \<longrightarrow> out = []) order outs \<and>
      stdout result_A = stdout init_state @
        concat (map (\<lambda>(dp, out). (d_name dp @ nl) # out) (zip order outs)))"
proof -
  have e: "qsort dirent_compare (qsort dirent_compare (read_entries stream_A)) =
     [mk_dirent ''C'' DT_DIR 24, mk_dirent ''b.txt'' DT_REG 32, mk_dirent ''l'' DT_LNK 24]"
    by (simp add: stream_A_def mk_dirent_def dirent_compare_def byte_def)
  have ab: "entry_le (mk_dirent ''C'' DT_DIR 24) (mk_dirent ''b.txt'' DT_REG 32)"
    by (simp add: entry_le_def is_directory_def mk_dirent_def)
  have bc: "entry_le (mk_dirent ''b.txt'' DT_REG 32) (mk_dirent ''l'' DT_LNK 24)"
    by (simp add: entry_le_def is_directory_def mk_dirent_def byte_def)
  have d: "is_directory (mk_dirent ''C'' DT_DIR 24)" "\<not> is_directory (mk_dirent ''b.txt'' DT_REG 32)"
    by (simp_all add: is_directory_def mk_dirent_def)
  have n: "distinct (map d_name (read_entries stream_A))"
    by (simp add: stream_A_def mk_dirent_def)
  have p: "compose_path ''.'' ''A'' = Inr ''./A''" by (simp add: compose_path_def)
  have opn: "opendir tree_A ''./A'' = Some stream_A" by (simp add: tree_A_def)
  have r: "processDir (Suc (Suc 0)) tree_A ''A'' ''.'' init_state 0 = Inr result_A"
    by (rule tree_A_run)
  note inst = sort_is_directories_first_then_names[where entries = "read_entries stream_A"
      and a = "mk_dirent ''C'' DT_DIR 24" and b = "mk_dirent ''b.txt'' DT_REG 32"
      and c = "mk_dirent ''l'' DT_LNK 24"
      and pstr = "''.''" and dn = "''A''" and p = "''./A''" and fs = tree_A
      and stream = stream_A and fuel = "Suc (Suc 0)" and s = init_state and flags = 0
      and s' = result_A]
  from inst p opn r have v: "\<exists>order outs.
      mset order = mset (read_entries stream_A) \<and>
      sorted_wrt entry_le order \<and>
      list_all2 (\<lambda>dp out. d_type dp \<noteq> DT_DIR \<longrightarrow> out = []) order outs \<and>
      stdout result_A = stdout init_state @
        concat (map (\<lambda>(dp, out). (d_name dp @ nl) # out) (zip order outs))"
    by blast
  from inst e have srt: "sorted_wrt entry_le
      [mk_dirent ''C'' DT_DIR 24, mk_dirent ''b.txt'' DT_REG 32, mk_dirent ''l'' DT_LNK 24]"
    by simp
  from inst ab bc have ac: "entry_le (mk_dirent ''C'' DT_DIR 24) (mk_dirent ''l'' DT_LNK 24)"
    by blast
  from inst d have nba: "\<not> entry_le (mk_dirent ''b.txt'' DT_REG 32) (mk_dirent ''C'' DT_DIR 24)"
    by blast
  have out: "stdout result_A = [''C'' @ nl, ''d.txt'' @ nl, ''b.txt'' @ nl, ''l'' @ nl]"
    by (simp add: result_A_def)
  from e srt ab bc ac nba n r out v show ?thesis by blast
qed

section \<open>C4: where the type of an entry comes from\<close>

lemma processDir_lstat_irrelevant:
  "processDir fuel (fs\<lparr>lstat := l\<rparr>) dn pstr s flags = processDir fuel fs dn pstr s flags"
proof (induction fuel arbitrary: dn pstr s)
  case 0
  show ?case by simp
next
  case (Suc fuel)
  have "for_entries (\<lambda>name s'. processDir fuel (fs\<lparr>lstat := l\<rparr>) name p s' flags) es t =
        for_entries (\<lambda>name s'. processDir fuel fs name p s' flags) es t" for p es t
    by (rule for_entries_cong) (rule Suc.IH)
  then show ?case by (simp add: processDir.simps(2) Let_def split: sum.split option.split)
qed

text \<open>
  C4, as amended. The type of an entry is the \<open>d_type\<close> of its directory record: no status
  lookup influences a call of \<open>processDir\<close>. An entry whose \<open>d_type\<close> is none of the five
  counted types is printed, changes no field of the statistics (there is no bucket for
  other entries), is not entered, and the loop goes on with the next entry.
\<close>

theorem type_is_read_from_directory_record:
  "processDir fuel (fs\<lparr>lstat := l\<rparr>) dn pstr s flags = processDir fuel fs dn pstr s flags \<and>
   (\<not> counted dp \<longrightarrow>
      for_entries recurse (dp # rest) t =
      for_entries recurse rest (t\<lparr>stdout := stdout t @ [d_name dp @ nl]\<rparr>))"
proof
  show "processDir fuel (fs\<lparr>lstat := l\<rparr>) dn pstr s flags = processDir fuel fs dn pstr s flags"
    by (rule processDir_lstat_irrelevant)
  show "\<not> counted dp \<longrightarrow>
      for_entries recurse (dp # rest) t =
      for_entries recurse rest (t\<lparr>stdout := stdout t @ [d_name dp @ nl]\<rparr>)"
  proof
    assume n: "\<not> counted dp"
    then have "d_type dp \<noteq> DT_DIR" by (simp add: counted_def)
    moreover have "visit dp t = t\<lparr>stdout := stdout t @ [d_name dp @ nl]\<rparr>"
      using n by (simp add: visit_def update_stats_not_counted)
    ultimately show "for_entries recurse (dp # rest) t =
      for_entries recurse rest (t\<lparr>stdout := stdout t @ [d_name dp @ nl]\<rparr>)"
      by (simp add: for_entries_Cons)
  qed
qed

theorem type_is_read_from_directory_record_witness:
  "processDir (Suc (Suc 0)) (tree_dev\<lparr>lstat := \<lambda>p. None\<rparr>) ''dev'' ''.'' init_state 0 =
     Inr result_dev \<and>
   \<not> counted (mk_dirent ''sub'' DT_UNKNOWN 24) \<and>
   for_entries (\<lambda>name s'. processDir (Suc 0) tree_dev name ''./dev'' s' 0)
     [mk_dirent ''sub'' DT_UNKNOWN 24, mk_dirent ''tty'' DT_CHR 24] init_state =
   for_entries (\<lambda>name s'. processDir (Suc 0) tree_dev name ''./dev'' s' 0)
     [mk_dirent ''tty'' DT_CHR 24] (init_state\<lparr>stdout := [''sub'' @ nl]\<rparr>)"
proof -
  have n: "\<not> counted (mk_dirent ''sub'' DT_UNKNOWN 24)"
    by (simp add: counted_def mk_dirent_def)
  from type_is_read_from_directory_record[where fuel = "Suc (Suc 0)" and fs = tree_dev
      and l = "\<lambda>p. None" and dn = "''dev''" and pstr = "''.''" and s = init_state and flags = 0
      and dp = "mk_dirent ''sub'' DT_UNKNOWN 24"
      and recurse = "\<lambda>name s'. processDir (Suc 0) tree_dev name ''./dev'' s' 0"
      and rest = "[mk_dirent ''tty'' DT_CHR 24]" and t = init_state] n
  show ?thesis
    using tree_dev_run[of 0] by (simp add: init_state_def mk_dirent_def)
qed

text \<open>
  C4, as stated, fails: a status lookup of \<open>./dev/sub\<close> gives a directory, and it can be
  opened; its record has the type \<open>DT_UNKNOWN\<close>, so it is printed, counted in no field at
  all and not entered.
\<close>

theorem status_lookup_is_not_consulted:
  "lstat tree_dev ''./dev/sub'' = Some \<lparr>st_mode = S_IFDIR, st_size = 4096, st_blocks = 8\<rparr> \<and>
   opendir tree_dev ''./dev/sub'' = Some [mk_dirent ''x'' DT_REG 24] \<and>
   processDir (Suc (Suc 0)) tree_dev ''dev'' ''.'' init_state 0 = Inr result_dev \<and>
   stats result_dev = zero_summary \<and>
   stdout result_dev = [''sub'' @ nl, ''tty'' @ nl] \<and>
   dirlog result_dev = [Opendir ''./dev'', Closedir ''./dev'']"
  using tree_dev_run[of 0] by (simp add: tree_dev_def result_dev_def)

section \<open>C5: the grand total\<close>

lemma main_loop_total:
  "main_loop fuel fs split flags ds (tstat, dstats, s) = Inr (tstat', dstats', s') \<Longrightarrow>
   \<exists>new. dstats' = dstats @ new \<and> tstat' = foldl add_summary tstat new \<and>
     list_all2 (\<lambda>d dstat. \<exists>t t'. stats t = zero_summary \<and>
        processDir fuel fs (snd (split d)) (case fst (split d) of None \<Rightarrow> ''./'' | Some p \<Rightarrow> p) t flags = Inr t' \<and>
        dstat = stats t') ds new"
proof (induction ds arbitrary: tstat dstats s)
  case Nil
  then show ?case by simp
next
  case (Cons d ds)
  from Cons.prems obtain t s2 s3 :: state where
    call: "processDir fuel fs (snd (split d)) (case fst (split d) of None \<Rightarrow> ''./'' | Some p \<Rightarrow> p) t flags = Inr s2"
    and fresh: "stats t = zero_summary"
    and rest: "main_loop fuel fs split flags ds
             (add_summary tstat (stats s2), dstats @ [stats s2], s3) = Inr (tstat', dstats', s')"
    by (auto simp add: Let_def split: sum.splits if_splits)
  from Cons.IH[OF rest] obtain new where
    "dstats' = (dstats @ [stats s2]) @ new"
    "tstat' = foldl add_summary (add_summary tstat (stats s2)) new"
    "list_all2 (\<lambda>d dstat. \<exists>t t'. stats t = zero_summary \<and>
        processDir fuel fs (snd (split d)) (case fst (split d) of None \<Rightarrow> ''./'' | Some p \<Rightarrow> p) t flags = Inr t' \<and>
        dstat = stats t') ds new" by blast
  with call fresh show ?case by (intro exI[of _ "stats s2 # new"]) auto
qed

lemma foldl_add_summary:
  "dirs (foldl add_summary t new) = dirs t + sum_list (map dirs new)"
  "files (foldl add_summary t new) = files t + sum_list (map files new)"
  "links (foldl add_summary t new) = links t + sum_list (map links new)"
  "fifos (foldl add_summary t new) = fifos t + sum_list (map fifos new)"
  "socks (foldl add_summary t new) = socks t + sum_list (map socks new)"
  "size' (foldl add_summary t new) = size' t + sum_list (map size' new)"
  "blocks (foldl add_summary t new) = blocks t + sum_list (map blocks new)"
  by (induction new arbitrary: t; simp add: add_summary_def)+

text \<open>
  C5. When \<open>main\<close> has processed its roots, there is one \<open>dstat\<close> for each root, each the
  statistics of the \<open>processDir\<close> call of that root started from zero, and each field of
  \<open>tstat\<close> is the sum of that field over them (in the unsigned arithmetic of the field's
  type).
\<close>

theorem grand_total_is_sum:
  assumes "main_body fuel fs split flags directories s = Inr (tstat, dstats, s')"
  shows "list_all2 (\<lambda>d dstat. \<exists>t t'. stats t = zero_summary \<and>
           processDir fuel fs (snd (split d)) (case fst (split d) of None \<Rightarrow> ''./'' | Some p \<Rightarrow> p) t flags = Inr t' \<and>
           dstat = stats t') directories dstats \<and>
         files tstat = sum_list (map files dstats) \<and>
         dirs tstat = sum_list (map dirs dstats) \<and>
         links tstat = sum_list (map links dstats) \<and>
         fifos tstat = sum_list (map fifos dstats) \<and>
         socks tstat = sum_list (map socks dstats) \<and>
         size' tstat = sum_list (map size' dstats) \<and>
         blocks tstat = sum_list (map blocks dstats)"
proof -
  from assms obtain s1 where
    "main_loop fuel fs split flags directories (zero_summary, [], s) = Inr (tstat, dstats, s1)"
    by (auto simp add: main_body_def split: sum.splits)
  from main_loop_total[OF this] have "list_all2 (\<lambda>d dstat. \<exists>t t'. stats t = zero_summary \<and>
           processDir fuel fs (snd (split d)) (case fst (split d) of None \<Rightarrow> ''./'' | Some p \<Rightarrow> p) t flags = Inr t' \<and>
           dstat = stats t') directories dstats"
    and "tstat = foldl add_summary zero_summary dstats" by auto
  then show ?thesis by (simp add: foldl_add_summary zero_summary_def)
qed


theorem grand_total_is_sum_witness:
  "main_body (Suc (Suc 0)) tree_A split_dot 0 [''A'', ''missing'', ''A''] init_state =
     Inr (\<lparr>dirs = 2, files = 4, links = 2, fifos = 0, socks = 0, size' = 128, blocks = 0\<rparr>,
          [stats_A, zero_summary, stats_A],
          \<lparr>stats = stats_A, stdout = stdout result_A @ stdout result_A,
           dirlog = dirlog result_A @ dirlog result_A\<rparr>) \<and>
   sum_list (map files [stats_A, zero_summary, stats_A]) = 4 \<and>
   sum_list (map size' [stats_A, zero_summary, stats_A]) = 128"
proof -
  have r: "main_body (Suc (Suc 0)) tree_A split_dot 0 [''A'', ''missing'', ''A''] init_state =
     Inr (\<lparr>dirs = 2, files = 4, links = 2, fifos = 0, socks = 0, size' = 128, blocks = 0\<rparr>,
          [stats_A, zero_summary, stats_A],
          \<lparr>stats = stats_A, stdout = stdout result_A @ stdout result_A,
           dirlog = dirlog result_A @ dirlog result_A\<rparr>)"
    by (simp add: main_body_def split_dot_def processDir.simps(2) for_entries.simps(2)
        compose_path_def tree_A_def stream_A_def stream_C_def mk_dirent_def init_state_def
        result_A_def stats_A_def zero_summary_def dirent_compare_def update_stats_def byte_def
        add_summary_def Let_def)
  from grand_total_is_sum[OF r] show ?thesis using r by simp
qed

section \<open>C6: roots that cannot be opened\<close>

lemma add_summary_zero: "add_summary tstat zero_summary = tstat"
  by (simp add: add_summary_def zero_summary_def)

text \<open>
  When the path that \<open>processDir\<close> composes cannot be opened, the call returns the state it
  was given, and the loop of \<open>main\<close> goes on with the remaining roots: the \<open>dstat\<close> of the
  root is all zero and \<open>tstat\<close> is unchanged.
\<close>

lemma unopenable_path_is_skipped:
  assumes split: "split d = (dirn, dn)"
    and parent: "pstr = (case dirn of None \<Rightarrow> ''./'' | Some q \<Rightarrow> q)"
    and path: "compose_path pstr dn = Inr p"
    and closed: "opendir fs p = None"
  shows "processDir (Suc fuel) fs dn pstr s flags = Inr s \<and>
         main_loop (Suc fuel) fs split flags (d # ds) (tstat, dstats, s) =
         main_loop (Suc fuel) fs split flags ds
           (tstat, dstats @ [zero_summary],
            if flags AND F_SUMMARY \<noteq> 0
            then s\<lparr>stats := zero_summary,
                   stdout := stdout s @ [nl @ ''Directory: '' @ d @ nl] @ summary_lines zero_summary\<rparr>
            else s\<lparr>stats := zero_summary\<rparr>)"
proof -
  have skip: "processDir (Suc fuel) fs dn pstr t flags = Inr t" for t
    using path closed by (rule processDir_unopenable)
  have dn: "snd (split d) = dn" and dirn: "fst (split d) = dirn"
    using split by simp_all
  show ?thesis
    by (simp add: skip dn dirn parent[symmetric] Let_def add_summary_zero)
qed

text \<open>
  So a root with no slash in it that cannot be opened is skipped, with the library's
  \<open>basename\<close> and \<open>dirname\<close>.
\<close>

lemma unopenable_plain_root_is_skipped:
  assumes plain: "d \<noteq> []" "CHR ''/'' \<notin> set d" "CHR 0x00 \<notin> set d"
    and len: "length d < 65535"
    and closed: "opendir fs (''./'' @ d) = None"
  shows "main_loop (Suc fuel) fs glibc_split flags (d # ds) (tstat, dstats, s) =
         main_loop (Suc fuel) fs glibc_split flags ds
           (tstat, dstats @ [zero_summary],
            if flags AND F_SUMMARY \<noteq> 0
            then s\<lparr>stats := zero_summary,
                   stdout := stdout s @ [nl @ ''Directory: '' @ d @ nl] @ summary_lines zero_summary\<rparr>
            else s\<lparr>stats := zero_summary\<rparr>)"
proof -
  have "compose_path ''.'' d = Inr (''./'' @ d)"
    using len by (simp add: compose_path_short)
  with closed show ?thesis
    using unopenable_path_is_skipped[where split = glibc_split and d = d and dirn = "Some ''.''"
        and dn = d and pstr = "''.''" and p = "''./'' @ d" and fs = fs and fuel = fuel
        and s = s and flags = flags and ds = ds and tstat = tstat and dstats = dstats]
      glibc_split_plain[OF plain]
    by simp
qed

text \<open>
  C6. A root that does not exist is to print nothing and to leave its statistics at zero.
  The path that \<open>processDir\<close> composes is not always the root, though: for the root
  \<open>/missing\<close>, \<open>basename\<close> returns a pointer to \<open>missing\<close> inside the copy, and \<open>dirname\<close>
  then ends the directory part \<open>/\<close> with a NUL at that very byte. \<open>processDir\<close> is called
  with an empty name and the parent \<open>/\<close>, opens the root directory, and prints and counts
  its entries, although \<open>/missing\<close> cannot be opened.
\<close>

theorem missing_root_traverses_the_root_directory:
  "opendir tree_root ''/missing'' = None \<and>
   glibc_split ''/missing'' = (Some ''/'', '''') \<and>
   compose_path ''/'' '''' = Inr ''/'' \<and>
   opendir tree_root ''/'' =
     Some [mk_dirent ''.'' DT_DIR 24, mk_dirent ''..'' DT_DIR 24, mk_dirent ''f'' DT_REG 24] \<and>
   main_loop (Suc 0) tree_root glibc_split 0 [''/missing''] (zero_summary, [], init_state) =
     Inr (stats_root, [stats_root],
          \<lparr>stats = stats_root, stdout = [''f'' @ nl],
           dirlog = [Opendir ''/'', Closedir ''/'']\<rparr>) \<and>
   glibc_split '''' = (Some ''.'', ''.'') \<and>
   compose_path ''.'' ''.'' = Inr ''./.''"
  by (simp add: glibc_split_examples processDir.simps(2) for_entries.simps(2) compose_path_def
      tree_root_def mk_dirent_def init_state_def stats_root_def zero_summary_def
      dirent_compare_def update_stats_def byte_def add_summary_def Let_def)

section \<open>C7: recursion into directories only\<close>

lemma entered_mono:
  "entered_as_directory fs evs q \<Longrightarrow> set evs \<subseteq> set evs' \<Longrightarrow> entered_as_directory fs evs' q"
  unfolding entered_as_directory_def by blast

lemma opens_directories_only_refl: "opens_directories_only fs t t"
  by (simp add: opens_directories_only_def)

lemma opens_directories_only_trans:
  assumes "opens_directories_only fs a b" "opens_directories_only fs b c"
  shows "opens_directories_only fs a c"
  using assms unfolding opens_directories_only_def
  by (meson entered_mono subset_trans)

lemma opens_directories_only_visit: "opens_directories_only fs t (visit dp t)"
  by (simp add: opens_directories_only_def visit_def)

lemma processDir_Inr_fuel:
  "processDir fuel fs dn pstr s flags = Inr s' \<Longrightarrow>
   \<exists>n p. fuel = Suc n \<and> compose_path pstr dn = Inr p"
  by (cases fuel; cases "compose_path pstr dn") (auto simp add: processDir_overflow)

lemma processDir_opens:
  assumes "processDir fuel fs dn pstr s flags = Inr s'" "compose_path pstr dn = Inr root"
  shows "set (dirlog s) \<subseteq> set (dirlog s') \<and>
         (\<forall>q. Opendir q \<in> set (dirlog s') \<longrightarrow>
            Opendir q \<in> set (dirlog s) \<or> q = root \<or> entered_as_directory fs (dirlog s') q)"
  using assms
proof (induction fuel arbitrary: dn pstr s s' root)
  case 0
  then show ?case by simp
next
  case (Suc fuel)
  show ?case
  proof (cases "opendir fs root")
    case None
    with Suc.prems show ?thesis by (simp add: processDir_unopenable)
  next
    case (Some stream)
    let ?s1 = "s\<lparr>dirlog := dirlog s @ [Opendir root]\<rparr>"
    show ?thesis
    proof (cases "read_entries stream = []")
      case True
      with Some Suc.prems have "dirlog s' = dirlog s @ [Opendir root, Closedir root]"
        by (auto simp add: processDir_opened)
      then show ?thesis by auto
    next
      case False
      with Some Suc.prems obtain s2 where
        f: "for_entries (\<lambda>name s'. processDir fuel fs name root s' flags)
              (qsort dirent_compare (qsort dirent_compare (read_entries stream))) ?s1 = Inr s2"
        and s': "s' = s2\<lparr>dirlog := dirlog s2 @ [Closedir root]\<rparr>"
        by (auto simp add: processDir_opened split: sum.splits)
      let ?R = "\<lambda>t t'. Opendir root \<in> set (dirlog t) \<longrightarrow> opens_directories_only fs t t'"
      have "?R ?s1 s2"
      proof (rule for_entries_rel[where R = ?R, OF _ _ _ _ f])
        show "?R t t" for t by (simp add: opens_directories_only_refl)
      next
        fix a b c :: state
        assume ab: "?R a b" and bc: "?R b c"
        show "?R a c"
        proof
          assume o: "Opendir root \<in> set (dirlog a)"
          with ab have 1: "opens_directories_only fs a b" by simp
          then have "Opendir root \<in> set (dirlog b)"
            using o by (auto simp add: opens_directories_only_def)
          with bc have "opens_directories_only fs b c" by simp
          with 1 show "opens_directories_only fs a c" by (rule opens_directories_only_trans)
        qed
      next
        show "?R t (visit dp t)" for dp t by (simp add: opens_directories_only_visit)
      next
        fix dp :: dirent and t t' :: state
        assume mem: "dp \<in> set (qsort dirent_compare (qsort dirent_compare (read_entries stream)))"
          and dir: "d_type dp = DT_DIR"
          and call: "processDir fuel fs (d_name dp) root t flags = Inr t'"
        from mem have mem': "dp \<in> set (read_entries stream)" by (simp add: set_qsort)
        from processDir_Inr_fuel[OF call] obtain q where q: "compose_path root (d_name dp) = Inr q"
          by blast
        from Suc.IH[OF call q] have sub: "set (dirlog t) \<subseteq> set (dirlog t')"
          and opens: "\<forall>x. Opendir x \<in> set (dirlog t') \<longrightarrow>
            Opendir x \<in> set (dirlog t) \<or> x = q \<or> entered_as_directory fs (dirlog t') x"
          by simp_all
        show "?R t t'"
        proof
          assume "Opendir root \<in> set (dirlog t)"
          with sub have "Opendir root \<in> set (dirlog t')" by blast
          with Some mem' dir q have "entered_as_directory fs (dirlog t') q"
            unfolding entered_as_directory_def by blast
          with sub opens show "opens_directories_only fs t t'"
            unfolding opens_directories_only_def by blast
        qed
      qed
      then have r: "opens_directories_only fs ?s1 s2" by simp
      have sub: "set (dirlog s2) \<subseteq> set (dirlog s')" using s' by auto
      have "set (dirlog s) \<subseteq> set (dirlog s')"
        using r sub by (auto simp add: opens_directories_only_def)
      moreover have "Opendir q \<in> set (dirlog s) \<or> q = root \<or> entered_as_directory fs (dirlog s') q"
        if "Opendir q \<in> set (dirlog s')" for q
      proof -
        from that s' have "Opendir q \<in> set (dirlog s2)" by simp
        with r have "Opendir q \<in> set (dirlog ?s1) \<or> entered_as_directory fs (dirlog s2) q"
          by (simp add: opens_directories_only_def)
        then show ?thesis using entered_mono[OF _ sub] by auto
      qed
      ultimately show ?thesis by blast
    qed
  qed
qed

lemma for_entries_returns:
  "(\<forall>dp\<in>set es. d_type dp = DT_DIR \<longrightarrow> (\<forall>t. \<exists>t'. recurse (d_name dp) t = Inr t')) \<Longrightarrow>
   \<exists>s'. for_entries recurse es s = Inr s'"
proof (induction es arbitrary: s)
  case Nil
  then show ?case by simp
next
  case (Cons dp rest)
  show ?case
  proof (cases "d_type dp = DT_DIR \<and> strcmp (d_name dp) ''..'' \<noteq> 0 \<and> strcmp (d_name dp) ''.'' \<noteq> 0")
    case True
    with Cons.prems have "\<forall>t. \<exists>t'. recurse (d_name dp) t = Inr t'" by simp
    then obtain s3 where "recurse (d_name dp) (visit dp s) = Inr s3" by blast
    moreover have "\<exists>s'. for_entries recurse rest s3 = Inr s'"
      using Cons.IH Cons.prems by simp
    ultimately show ?thesis using True by (simp add: for_entries_Cons)
  next
    case False
    have "\<exists>s'. for_entries recurse rest (visit dp s) = Inr s'"
      using Cons.IH Cons.prems by simp
    then show ?thesis using False by (auto simp add: for_entries_Cons)
  qed
qed

lemma processDir_returns:
  assumes nested: "\<And>p stream dp. opendir fs p = Some stream \<Longrightarrow> dp \<in> set (read_entries stream) \<Longrightarrow>
             d_type dp = DT_DIR \<Longrightarrow> \<exists>q. compose_path p (d_name dp) = Inr q \<and> rank q < rank p"
    and "compose_path pstr dn = Inr root" and "rank root < fuel"
  shows "\<exists>s'. processDir fuel fs dn pstr s flags = Inr s'"
  using assms(2,3)
proof (induction fuel arbitrary: dn pstr root s)
  case 0
  then show ?case by simp
next
  case (Suc fuel)
  show ?case
  proof (cases "opendir fs root")
    case None
    with Suc.prems show ?thesis by (simp add: processDir_unopenable)
  next
    case (Some stream)
    have "\<exists>s'. for_entries (\<lambda>name s'. processDir fuel fs name root s' flags)
              (qsort dirent_compare (qsort dirent_compare (read_entries stream))) t = Inr s'" for t
    proof (rule for_entries_returns, intro ballI impI allI)
      fix dp :: dirent and t :: state
      assume "dp \<in> set (qsort dirent_compare (qsort dirent_compare (read_entries stream)))"
        and dir: "d_type dp = DT_DIR"
      then have "dp \<in> set (read_entries stream)" by (simp add: set_qsort)
      from nested[OF Some this dir] obtain q where
        q: "compose_path root (d_name dp) = Inr q" and "rank q < rank root" by blast
      with Suc.prems have "rank q < fuel" by simp
      from Suc.IH[OF q this] show "\<exists>t'. processDir fuel fs (d_name dp) root t flags = Inr t'" .
    qed
    then obtain s2 where "for_entries (\<lambda>name s'. processDir fuel fs name root s' flags)
              (qsort dirent_compare (qsort dirent_compare (read_entries stream)))
              (s\<lparr>dirlog := dirlog s @ [Opendir root]\<rparr>) = Inr s2" by blast
    with Some Suc.prems show ?thesis by (simp add: processDir_opened)
  qed
qed

text \<open>
  C7. The loop recurses into no entry whose type is not \<open>DT_DIR\<close>: such an entry is
  printed, goes through the \<open>switch\<close>, and the loop goes on with the next one. Every
  directory that a call opens, other than its own,
  is an entry of type \<open>DT_DIR\<close> of a directory opened in the same call; a symbolic link
  has type \<open>DT_LNK\<close> and is never opened, whatever it points to. So the call returns as
  soon as the nesting of the \<open>DT_DIR\<close> entries is bounded (by \<open>rank\<close>), and what opening a
  link would give, a cycle included, plays no part.
\<close>

theorem processDir_enters_directories_only:
  assumes nested: "\<And>p stream dp. opendir fs p = Some stream \<Longrightarrow> dp \<in> set (read_entries stream) \<Longrightarrow>
             d_type dp = DT_DIR \<Longrightarrow> \<exists>q. compose_path p (d_name dp) = Inr q \<and> rank q < rank p"
    and root: "compose_path pstr dn = Inr root"
    and fuel: "rank root < fuel"
  shows "(\<exists>s'. processDir fuel fs dn pstr s flags = Inr s') \<and>
         (\<forall>n s' q. processDir n fs dn pstr s flags = Inr s' \<longrightarrow> Opendir q \<in> set (dirlog s') \<longrightarrow>
            Opendir q \<in> set (dirlog s) \<or> q = root \<or> entered_as_directory fs (dirlog s') q) \<and>
         (\<forall>recurse dp rest t. d_type dp \<noteq> DT_DIR \<longrightarrow>
            for_entries recurse (dp # rest) t = for_entries recurse rest (visit dp t))"
proof (intro conjI allI impI)
  show "\<exists>s'. processDir fuel fs dn pstr s flags = Inr s'"
    using nested root fuel by (rule processDir_returns)
next
  fix n s' q
  assume "processDir n fs dn pstr s flags = Inr s'" and "Opendir q \<in> set (dirlog s')"
  then show "Opendir q \<in> set (dirlog s) \<or> q = root \<or> entered_as_directory fs (dirlog s') q"
    using processDir_opens[OF _ root] by blast
next
  fix recurse and dp :: dirent and rest t
  assume "d_type dp \<noteq> DT_DIR"
  then show "for_entries recurse (dp # rest) t = for_entries recurse rest (visit dp t)"
    by (simp add: for_entries_Cons)
qed

theorem processDir_enters_directories_only_witness:
  "opendir tree_A ''./A/l'' = Some stream_A \<and>
   processDir (Suc (Suc 0)) tree_A ''A'' ''.'' init_state 0 = Inr result_A \<and>
   dirlog result_A = [Opendir ''./A'', Opendir ''./A/C'', Closedir ''./A/C'', Closedir ''./A''] \<and>
   entered_as_directory tree_A (dirlog result_A) ''./A/C''"
proof -
  have "(\<exists>s'. processDir (Suc (Suc 0)) tree_A ''A'' ''.'' init_state 0 = Inr s') \<and>
        (\<forall>n s' q. processDir n tree_A ''A'' ''.'' init_state 0 = Inr s' \<longrightarrow>
           Opendir q \<in> set (dirlog s') \<longrightarrow>
           Opendir q \<in> set (dirlog init_state) \<or> q = ''./A'' \<or>
           entered_as_directory tree_A (dirlog s') q) \<and>
        (\<forall>recurse dp rest t. d_type dp \<noteq> DT_DIR \<longrightarrow>
           for_entries recurse (dp # rest) t = for_entries recurse rest (visit dp t))"
  proof (rule processDir_enters_directories_only[where rank = rank_A])
    show "\<exists>q. compose_path p (d_name dp) = Inr q \<and> rank_A q < rank_A p"
      if "opendir tree_A p = Some stream" "dp \<in> set (read_entries stream)" "d_type dp = DT_DIR"
      for p stream dp
      using that
      by (auto simp add: tree_A_def stream_A_def stream_C_def mk_dirent_def compose_path_def
          rank_A_def split: if_splits)
    show "compose_path ''.'' ''A'' = Inr ''./A''" by (simp add: compose_path_def)
    show "rank_A ''./A'' < Suc (Suc 0)" by (simp add: rank_A_def)
  qed
  then have "processDir n tree_A ''A'' ''.'' init_state 0 = Inr s' \<longrightarrow>
           Opendir q \<in> set (dirlog s') \<longrightarrow>
           Opendir q \<in> set (dirlog init_state) \<or> q = ''./A'' \<or>
           entered_as_directory tree_A (dirlog s') q" for n s' q
    by blast
  from this[of "Suc (Suc 0)" result_A "''./A/C''"]
  have "entered_as_directory tree_A (dirlog result_A) ''./A/C''"
    using tree_A_run[of 0] by (simp add: init_state_def result_A_def)
  then show ?thesis using tree_A_run[of 0] by (simp add: tree_A_def result_A_def)
qed

section \<open>C8: the path of the directory\<close>

text \<open>
  With \<open>2 ^ 16\<close> bytes or more in either string the buffer is too short for what is
  copied into it.
\<close>

lemma mod_le_diff: "k \<le> n \<Longrightarrow> n mod k \<le> n - (k::nat)"
  by (metis le_mod_geq mod_less_eq_dividend)

lemma compose_path_long:
  assumes "65536 \<le> length pstr \<or> 65536 \<le> length dn"
  shows "compose_path pstr dn = Inl BufferOverflow"
proof -
  have l: "unat (of_nat (length pstr) :: 16 word) = length pstr mod 65536"
    and d: "unat (of_nat (length dn) :: 16 word) = length dn mod 65536"
    by (simp_all add: unat_of_nat)
  have "length pstr mod 65536 + length dn mod 65536 + 2 < length pstr + length dn + 1"
  proof (cases "65536 \<le> length pstr")
    case True
    then have "length pstr mod 65536 \<le> length pstr - 65536" by (rule mod_le_diff)
    moreover have "length dn mod 65536 \<le> length dn" by (rule mod_less_eq_dividend)
    ultimately show ?thesis using True by linarith
  next
    case False
    with assms have b: "65536 \<le> length dn" by simp
    then have "length dn mod 65536 \<le> length dn - 65536" by (rule mod_le_diff)
    moreover have "length pstr mod 65536 \<le> length pstr" by (rule mod_less_eq_dividend)
    ultimately show ?thesis using b by linarith
  qed
  then show ?thesis by (simp add: compose_path_def Let_def l d)
qed

lemma strip_trailing_last:
  "p \<noteq> [] \<Longrightarrow> last p \<noteq> CHR ''/'' \<Longrightarrow> strip_trailing_separators p = p"
  by (cases p rule: rev_cases) (simp_all add: strip_trailing_separators_def)

lemma strip_trailing_no_slash:
  "strip_trailing_separators p = [] \<or> last (strip_trailing_separators p) \<noteq> CHR ''/''"
proof (cases "dropWhile (\<lambda>c. c = CHR ''/'') (rev p)")
  case Nil
  then show ?thesis by (simp add: strip_trailing_separators_def)
next
  case (Cons x xs)
  then have "x \<noteq> CHR ''/''" using hd_dropWhile[of "\<lambda>c. c = CHR ''/''" "rev p"] by auto
  with Cons show ?thesis by (simp add: strip_trailing_separators_def)
qed

text \<open>
  C8, as amended. For a parent path and a child name of fewer than \<open>2 ^ 16\<close> bytes each,
  where the parent ends in at most one separator and the child does not begin with one,
  the path that \<open>processDir\<close> opens is the child alone when the parent is empty, and
  otherwise the parent and the child with exactly one separator between them, whether or
  not the parent ends in one.
\<close>

theorem compose_path_joins:
  assumes len: "length pstr < 65536" "length dn < 65536"
    and parent: "pstr = strip_trailing_separators pstr \<or> pstr = strip_trailing_separators pstr @ ''/''"
    and child: "dn = strip_leading_separators dn"
  shows "compose_path pstr dn =
         (if pstr = [] then Inr dn else Inr (spec_join pstr dn))"
proof (cases "pstr = []")
  case True
  then show ?thesis using len by (simp add: compose_path_short)
next
  case False
  show ?thesis
  proof (cases "last pstr = CHR ''/''")
    case True
    with False strip_trailing_no_slash[of pstr] have "pstr \<noteq> strip_trailing_separators pstr"
      by metis
    with parent have "pstr = strip_trailing_separators pstr @ ''/''" by simp
    then have "spec_join pstr dn = pstr @ dn"
      using child by (simp add: spec_join_def)
    with False True show ?thesis using len by (simp add: compose_path_short)
  next
    case no: False
    with False have "strip_trailing_separators pstr = pstr" by (rule strip_trailing_last)
    then have "spec_join pstr dn = pstr @ ''/'' @ dn"
      using child by (simp add: spec_join_def)
    with False no show ?thesis using len by (simp add: compose_path_short)
  qed
qed

theorem compose_path_joins_witness:
  "compose_path ''./A'' ''C'' = Inr ''./A/C'' \<and>
   compose_path ''/'' ''tmp'' = Inr ''/tmp'' \<and>
   compose_path ''A/'' ''b'' = Inr ''A/b'' \<and>
   compose_path [] ''A'' = Inr ''A''"
proof -
  have s: "strip_trailing_separators ''./A'' = ''./A''" "strip_trailing_separators ''/'' = []"
    "strip_trailing_separators ''A/'' = ''A''" "strip_trailing_separators [] = []"
    "strip_leading_separators ''C'' = ''C''" "strip_leading_separators ''tmp'' = ''tmp''"
    "strip_leading_separators ''b'' = ''b''" "strip_leading_separators ''A'' = ''A''"
    by (simp_all add: strip_trailing_separators_def strip_leading_separators_def)
  from compose_path_joins[of "''./A''" "''C''"] compose_path_joins[of "''/''" "''tmp''"]
    compose_path_joins[of "''A/''" "''b''"] compose_path_joins[of "[]" "''A''"]
  show ?thesis by (simp add: s spec_join_def)
qed

text \<open>
  C8, as stated, fails. For the root \<open>/\<close> both \<open>dirname\<close> and \<open>basename\<close> give \<open>/\<close>: the test
  of the last byte of the parent adds no separator, and the child brings its own, so the
  directory is opened as \<open>//\<close> and its children as \<open>//etc\<close>, with a doubled separator. For
  an empty parent the guard \<open>oldPathLength > 0\<close> leaves the separator out.
\<close>

theorem root_directory_gets_two_separators:
  "glibc_split ''/'' = (Some ''/'', ''/'') \<and>
   compose_path ''/'' ''/'' = Inr ''//'' \<and>
   compose_path ''/'' ''/'' \<noteq> Inr (spec_join ''/'' ''/'') \<and>
   main_loop (Suc 0) tree_root glibc_split 0 [''/''] (zero_summary, [], init_state) =
     Inr (stats_root, [stats_root],
          \<lparr>stats = stats_root, stdout = [''f'' @ nl],
           dirlog = [Opendir ''//'', Closedir ''//'']\<rparr>) \<and>
   compose_path ''//'' ''etc'' = Inr ''//etc'' \<and>
   compose_path ''//'' ''etc'' \<noteq> Inr (spec_join ''//'' ''etc'') \<and>
   compose_path [] ''A'' = Inr ''A'' \<and>
   compose_path [] ''A'' \<noteq> Inr (spec_join [] ''A'')"
  by (simp add: glibc_split_examples processDir.simps(2) for_entries.simps(2) compose_path_def
      tree_root_def mk_dirent_def init_state_def stats_root_def zero_summary_def
      dirent_compare_def update_stats_def byte_def add_summary_def Let_def
      spec_join_def strip_trailing_separators_def strip_leading_separators_def)

section \<open>C9: the directory stream\<close>

lemma processDir_balanced:
  assumes "processDir fuel fs dn pstr s flags = Inr s'"
  shows "\<exists>new. dirlog s' = dirlog s @ new \<and> (\<forall>hs. foldl apply_event hs new = hs)"
proof (rule processDir_rel[where R = "\<lambda>t t'. \<exists>new. dirlog t' = dirlog t @ new \<and> (\<forall>hs. foldl apply_event hs new = hs)", OF _ _ _ _ assms])
  fix t :: state
  show "\<exists>new. dirlog t = dirlog t @ new \<and> (\<forall>hs. foldl apply_event hs new = hs)"
    by (rule exI[of _ "[]"]) simp
next
  fix a b c :: state
  assume "\<exists>new. dirlog b = dirlog a @ new \<and> (\<forall>hs. foldl apply_event hs new = hs)"
    and "\<exists>new. dirlog c = dirlog b @ new \<and> (\<forall>hs. foldl apply_event hs new = hs)"
  then obtain n1 n2 where "dirlog b = dirlog a @ n1" "\<forall>hs. foldl apply_event hs n1 = hs"
    "dirlog c = dirlog b @ n2" "\<forall>hs. foldl apply_event hs n2 = hs" by blast
  then have "dirlog c = dirlog a @ (n1 @ n2) \<and> (\<forall>hs. foldl apply_event hs (n1 @ n2) = hs)"
    by simp
  then show "\<exists>new. dirlog c = dirlog a @ new \<and> (\<forall>hs. foldl apply_event hs new = hs)" by blast
next
  fix dp :: dirent and t :: state
  show "\<exists>new. dirlog (visit dp t) = dirlog t @ new \<and> (\<forall>hs. foldl apply_event hs new = hs)"
    by (rule exI[of _ "[]"]) (simp add: visit_def)
next
  fix p and t t' :: state
  assume "\<exists>new. dirlog t' = dirlog (t\<lparr>dirlog := dirlog t @ [Opendir p]\<rparr>) @ new \<and>
            (\<forall>hs. foldl apply_event hs new = hs)"
  then obtain mid where "dirlog t' = dirlog t @ [Opendir p] @ mid" "\<forall>hs. foldl apply_event hs mid = hs"
    by auto
  then have "dirlog (t'\<lparr>dirlog := dirlog t' @ [Closedir p]\<rparr>) = dirlog t @ (Opendir p # mid @ [Closedir p]) \<and>
       (\<forall>hs. foldl apply_event hs (Opendir p # mid @ [Closedir p]) = hs)"
    by simp
  then show "\<exists>new. dirlog (t'\<lparr>dirlog := dirlog t' @ [Closedir p]\<rparr>) = dirlog t @ new \<and>
            (\<forall>hs. foldl apply_event hs new = hs)" by blast
qed

lemma for_entries_balanced:
  assumes "for_entries (\<lambda>name s'. processDir fuel fs name p s' flags) es s = Inr s'"
  shows "\<exists>new. dirlog s' = dirlog s @ new \<and> (\<forall>hs. foldl apply_event hs new = hs)"
proof (rule for_entries_rel[where R = "\<lambda>t t'. \<exists>new. dirlog t' = dirlog t @ new \<and> (\<forall>hs. foldl apply_event hs new = hs)", OF _ _ _ _ assms])
  fix t :: state
  show "\<exists>new. dirlog t = dirlog t @ new \<and> (\<forall>hs. foldl apply_event hs new = hs)"
    by (rule exI[of _ "[]"]) simp
next
  fix a b c :: state
  assume "\<exists>new. dirlog b = dirlog a @ new \<and> (\<forall>hs. foldl apply_event hs new = hs)"
    and "\<exists>new. dirlog c = dirlog b @ new \<and> (\<forall>hs. foldl apply_event hs new = hs)"
  then obtain n1 n2 where "dirlog b = dirlog a @ n1" "\<forall>hs. foldl apply_event hs n1 = hs"
    "dirlog c = dirlog b @ n2" "\<forall>hs. foldl apply_event hs n2 = hs" by blast
  then have "dirlog c = dirlog a @ (n1 @ n2) \<and> (\<forall>hs. foldl apply_event hs (n1 @ n2) = hs)"
    by simp
  then show "\<exists>new. dirlog c = dirlog a @ new \<and> (\<forall>hs. foldl apply_event hs new = hs)" by blast
next
  fix dp :: dirent and t :: state
  show "\<exists>new. dirlog (visit dp t) = dirlog t @ new \<and> (\<forall>hs. foldl apply_event hs new = hs)"
    by (rule exI[of _ "[]"]) (simp add: visit_def)
next
  fix dp :: dirent and t t'
  assume "processDir fuel fs (d_name dp) p t flags = Inr t'"
  then show "\<exists>new. dirlog t' = dirlog t @ new \<and> (\<forall>hs. foldl apply_event hs new = hs)"
    by (rule processDir_balanced)
qed

text \<open>
  C9. When \<open>processDir\<close> has opened the directory and returns, whether the directory had
  no entries or the loop ran over all of them, the log of the call is the \<open>opendir\<close>, the
  events of the nested calls, and the \<open>closedir\<close> of the same stream last; the stream is
  open in between, and the streams open after the call are those open before it.
\<close>

theorem processDir_closes_stream:
  assumes path: "compose_path pstr dn = Inr p"
    and opened: "opendir fs p = Some stream"
    and returns: "processDir fuel fs dn pstr s flags = Inr s'"
  shows "\<exists>mid. dirlog s' = dirlog s @ Opendir p # mid @ [Closedir p] \<and>
               open_streams (dirlog s @ Opendir p # mid) = p # open_streams (dirlog s) \<and>
               open_streams (dirlog s') = open_streams (dirlog s)"
proof -
  from returns obtain n where fuel: "fuel = Suc n" by (cases fuel) auto
  let ?s1 = "s\<lparr>dirlog := dirlog s @ [Opendir p]\<rparr>"
  have "\<exists>mid. dirlog s' = dirlog s @ Opendir p # mid @ [Closedir p] \<and> (\<forall>hs. foldl apply_event hs mid = hs)"
  proof (cases "read_entries stream = []")
    case True
    with path opened returns fuel have "dirlog s' = dirlog s @ Opendir p # [] @ [Closedir p]"
      by (auto simp add: processDir_opened)
    then show ?thesis by (intro exI[of _ "[]"]) simp
  next
    case False
    with path opened returns fuel obtain s2 where
      f: "for_entries (\<lambda>name s'. processDir n fs name p s' flags)
            (qsort dirent_compare (qsort dirent_compare (read_entries stream))) ?s1 = Inr s2"
      and s': "s' = s2\<lparr>dirlog := dirlog s2 @ [Closedir p]\<rparr>"
      by (auto simp add: processDir_opened split: sum.splits)
    from for_entries_balanced[OF f] obtain mid where
      "dirlog s2 = dirlog ?s1 @ mid" "\<forall>hs. foldl apply_event hs mid = hs" by blast
    then show ?thesis using s' by (intro exI[of _ mid]) simp
  qed
  then obtain mid where m: "dirlog s' = dirlog s @ Opendir p # mid @ [Closedir p]"
    and b: "\<forall>hs. foldl apply_event hs mid = hs" by blast
  have "open_streams (dirlog s @ Opendir p # mid) = p # open_streams (dirlog s)"
    using b by (simp add: open_streams_def)
  moreover have "open_streams (dirlog s') = open_streams (dirlog s)"
    using b m by (simp add: open_streams_def)
  ultimately show ?thesis using m by blast
qed

theorem processDir_closes_stream_witness:
  "processDir (Suc (Suc 0)) tree_A ''A'' ''.'' init_state 0 = Inr result_A \<and>
   dirlog result_A = [Opendir ''./A'', Opendir ''./A/C'', Closedir ''./A/C'', Closedir ''./A''] \<and>
   open_streams (dirlog result_A) = []"
proof -
  have p: "compose_path ''.'' ''A'' = Inr ''./A''" by (simp add: compose_path_def)
  have o: "opendir tree_A ''./A'' = Some stream_A" by (simp add: tree_A_def)
  from processDir_closes_stream[OF p o tree_A_run[of 0]] show ?thesis
    using tree_A_run[of 0] by (simp add: init_state_def result_A_def open_streams_def)
qed

section \<open>C10: the flags\<close>

text \<open>
  C10. Two calls of \<open>processDir\<close> that differ in the \<open>flags\<close> argument only give the same
  result: the same output, the same statistics and the same streams opened and closed (or
  both do not return within the fuel, or both overflow the path buffer).
\<close>

theorem processDir_flags_irrelevant:
  "processDir fuel fs dn pstr s flags1 = processDir fuel fs dn pstr s flags2"
proof (induction fuel arbitrary: dn pstr s)
  case 0
  show ?case by simp
next
  case (Suc fuel)
  have "for_entries (\<lambda>name s'. processDir fuel fs name p s' flags1) es t =
        for_entries (\<lambda>name s'. processDir fuel fs name p s' flags2) es t" for p es t
    by (rule for_entries_cong) (rule Suc.IH)
  then show ?case by (simp add: processDir.simps(2) Let_def split: sum.split option.split)
qed

end
